theory Spec2Isabelle
  imports Complex_Main "HOL-Library.Sublist" "HOL-Library.AList" "HOL-Library.Log_Nat"
begin

section \<open>Utilities of the reviewer suggester\<close>

text \<open>
  Logins, paths and reasons are JavaScript strings, modelled as \<^typ>\<open>string\<close>: a list
  of characters, each read as the UTF-16 code unit of the same number (U+0000 to U+00FF).
  Characters beyond U+00FF are not in the model. On that range \<open>toLowerCase\<close> maps the
  capitals A to Z and the capitals U+00C0 to U+00DE other than the multiplication sign
  U+00D7 to the letter 32 places further, and nothing else.

  Scores and counts are integers. The load penalty is computed in binary64 arithmetic
  (section "IEEE doubles"); hours, averages and ratios are exact reals.
\<close>

definition lowerChar :: "char \<Rightarrow> char" where
  "lowerChar c =
     (let n = (of_char c :: nat)
      in if (65 \<le> n \<and> n \<le> 90) \<or> (192 \<le> n \<and> n \<le> 222 \<and> n \<noteq> 215)
         then char_of (n + 32) else c)"

definition toLowerCase :: "string \<Rightarrow> string" where
  "toLowerCase s = map lowerChar s"

text \<open>
  \<^verbatim>\<open>
  function isBotLogin(login) {
    if (!login) return true;
    const l = login.toLowerCase();
    return login.endsWith("[bot]") || l.includes("bot") || l === "github-actions";
  }
  \<close>
  The empty string is falsy, so it counts as a bot.
\<close>

definition isBotLogin :: "string \<Rightarrow> bool" where
  "isBotLogin login =
     (if login = [] then True
      else (let l = toLowerCase login
            in suffix ''[bot]'' login \<or> sublist ''bot'' l \<or> l = ''github-actions''))"

text \<open>
  \<^verbatim>\<open>
  function parseCommaSeparated(s) {
    return (s || "").split(",").map((x) => x.trim().toLowerCase()).filter(Boolean);
  }
  \<close>
  \<open>trim\<close> removes white space and line terminators at both ends; up to U+00FF these
  are tab, line feed, vertical tab, form feed, carriage return, space and the no-break
  space U+00A0.
\<close>

fun splitComma :: "string \<Rightarrow> string list" where
  "splitComma [] = [] # []"
| "splitComma (c # cs) =
     (if c = CHR '','' then [] # splitComma cs
      else (case splitComma cs of
              [] \<Rightarrow> [c] # []
            | w # ws \<Rightarrow> (c # w) # ws))"

definition isSpace :: "char \<Rightarrow> bool" where
  "isSpace c =
     (c \<in> set [CHR 0x09, CHR 0x0A, CHR 0x0B, CHR 0x0C, CHR 0x0D, CHR '' '', CHR 0xA0])"

definition trim :: "string \<Rightarrow> string" where
  "trim s = rev (dropWhile isSpace (rev (dropWhile isSpace s)))"

definition parseCommaSeparated :: "string \<Rightarrow> string list" where
  "parseCommaSeparated s =
     filter (\<lambda>x. x \<noteq> []) (map (\<lambda>x. toLowerCase (trim x)) (splitComma s))"

subsection \<open>IEEE doubles\<close>

text \<open>
  A JavaScript number is a binary64 value. The finite doubles are modelled as the
  rationals they denote, and each arithmetic operation as the exact operation followed by
  \<open>toDouble\<close>, the rounding to the nearest number with 53 significant bits, a tie going
  to the even significand. \<open>exponent x\<close> is the integer \<open>e\<close> with
  \<open>2 powi e \<le> x < 2 powi (e + 1)\<close> for a positive \<open>x\<close>. The exponent range is not
  bounded: overflow and subnormal numbers do not arise from scores and counts below
  2 to the power 53.
\<close>

definition roundEven :: "rat \<Rightarrow> int" where
  "roundEven x =
     (let f = \<lfloor>x\<rfloor>; d = x - of_int f
      in if d < 1 / 2 then f
         else if 1 / 2 < d then f + 1
         else if even f then f else f + 1)"

definition exponent :: "rat \<Rightarrow> int" where
  "exponent x =
     (if 1 \<le> x then int (floorlog 2 (nat \<lfloor>x\<rfloor>)) - 1
      else - int (floorlog 2 (nat (\<lceil>1 / x\<rceil> - 1))))"

definition toDouble :: "rat \<Rightarrow> rat" where
  "toDouble x =
     (if x = 0 then 0
      else (let u = 2 powi (exponent \<bar>x\<bar> - 52)
            in sgn x * of_int (roundEven (\<bar>x\<bar> / u)) * u))"

text \<open>
  \<open>Math.round\<close> gives the nearest integer of the number it is applied to, a half going
  towards plus infinity.
\<close>

definition jsRound :: "real \<Rightarrow> int" where
  "jsRound x = \<lfloor>x + 1 / 2\<rfloor>"

text \<open>Decimal rendering of an integer, as a template string renders it.\<close>

definition digitChar :: "nat \<Rightarrow> char" where
  "digitChar n = (''0123456789'' ! n)"

fun showNat :: "nat \<Rightarrow> string" where
  "showNat n =
     (if n < 10 then [digitChar n] else showNat (n div 10) @ [digitChar (n mod 10)])"

declare showNat.simps [simp del]

definition showInt :: "int \<Rightarrow> string" where
  "showInt i = (if i < 0 then ''-'' @ showNat (nat (- i)) else showNat (nat i))"

text \<open>
  \<^verbatim>\<open>
  function median(arr) {
    if (!arr.length) return null;
    const s = [...arr].sort((a, b) => a - b);
    const mid = Math.floor(s.length / 2);
    return s.length % 2 ? s[mid] : (s[mid - 1] + s[mid]) / 2;
  }
  \<close>
\<close>

definition median :: "real list \<Rightarrow> real option" where
  "median arr =
     (if arr = [] then None
      else (let s = sort arr; mid = length s div 2
            in if length s mod 2 \<noteq> 0 then Some (s ! mid)
               else Some ((s ! (mid - 1) + s ! mid) / 2)))"

text \<open>
  A JavaScript \<open>Map\<close> keeps its keys in insertion order: it is an association list with
  distinct keys; \<open>set\<close> is \<^const>\<open>AList.update\<close> (an existing key keeps its place, a new
  one goes to the end) and \<open>get\<close> is \<^const>\<open>map_of\<close>. A \<open>Set\<close> is a list without
  duplicates, \<open>add\<close> appending a new element.
\<close>

definition setAdd :: "'a \<Rightarrow> 'a list \<Rightarrow> 'a list" where
  "setAdd x xs = (if x \<in> set xs then xs else xs @ [x])"

definition getCount :: "(string \<times> nat) list \<Rightarrow> string \<Rightarrow> nat" where
  "getCount m k = (case map_of m k of None \<Rightarrow> 0 | Some c \<Rightarrow> c)"

text \<open>\<open>m.set(k, (m.get(k) || 0) + 1)\<close>\<close>

definition bump :: "string \<Rightarrow> (string \<times> nat) list \<Rightarrow> (string \<times> nat) list" where
  "bump k m = AList.update k (getCount m k + 1) m"

section \<open>Commit authors of a path\<close>

text \<open>
  What the suggester reads of a commit of a \<open>listCommits\<close> response: the author's login
  (\<open>c.author?.login\<close>) and the UTC hour of \<open>c.commit.author.date\<close>, each possibly missing.

  \<^verbatim>\<open>
  const authors = [];
  for (const c of resp.data) {
    const login = c.author?.login || null;
    if (login && !isBotLogin(login)) authors.push(login);
  }
  return authors;
  \<close>
\<close>

record commit =
  authorLogin :: "string option"
  authorDateHour :: "nat option"

definition topCommitAuthorsForPath :: "commit list \<Rightarrow> string list" where
  "topCommitAuthorsForPath resp =
     fold (\<lambda>c authors.
             (case authorLogin c of
                None \<Rightarrow> authors
              | Some login \<Rightarrow>
                  if login \<noteq> [] \<and> \<not> isBotLogin login then authors @ [login] else authors))
          resp []"

section \<open>CODEOWNERS rules\<close>

record rule =
  pattern :: string
  owners :: "string list"
  teams :: "string list"

text \<open>
  \<^verbatim>\<open>
  function normalizeCodeownersPattern(pattern) {
    if (pattern.startsWith("/")) return pattern.slice(1);
    return `**/${pattern}`;
  }
  \<close>
\<close>

definition normalizeCodeownersPattern :: "string \<Rightarrow> string" where
  "normalizeCodeownersPattern p =
     (if prefix ''/'' p then drop 1 p else ''**/'' @ p)"

text \<open>
  The glob matcher \<open>minimatch(filePath, pat, {dot, nocase, matchBase})\<close> is a library
  outside the repository: it is the parameter \<open>mm\<close>, a predicate on the file path and
  the normalized pattern.

  \<^verbatim>\<open>
  function ownersForFile(codeownersRules, filePath) {
    if (!codeownersRules.length) return [];
    let matchedOwners = [];
    for (const r of codeownersRules) {
      const pat = normalizeCodeownersPattern(r.pattern);
      if (minimatch(filePath, pat, {...})) matchedOwners = r.owners;
    }
    return matchedOwners;
  }
  \<close>
\<close>

type_synonym matcher = "string \<Rightarrow> string \<Rightarrow> bool"

fun ownersLoop :: "matcher \<Rightarrow> rule list \<Rightarrow> string \<Rightarrow> string list \<Rightarrow> string list" where
  "ownersLoop mm [] filePath matchedOwners = matchedOwners"
| "ownersLoop mm (r # rs) filePath matchedOwners =
     (let pat = normalizeCodeownersPattern (pattern r)
      in if mm filePath pat then ownersLoop mm rs filePath (owners r)
         else ownersLoop mm rs filePath matchedOwners)"

definition ownersForFile :: "matcher \<Rightarrow> rule list \<Rightarrow> string \<Rightarrow> string list" where
  "ownersForFile mm codeownersRules filePath =
     (if codeownersRules = [] then [] else ownersLoop mm codeownersRules filePath [])"

text \<open>The rules of a list whose normalized pattern matches a path, in file order.\<close>

definition matchingRules :: "matcher \<Rightarrow> rule list \<Rightarrow> string \<Rightarrow> rule list" where
  "matchingRules mm rs filePath =
     filter (\<lambda>r. mm filePath (normalizeCodeownersPattern (pattern r))) rs"

section \<open>Review latency\<close>

text \<open>
  A closed pull request of the \<open>pulls.list\<close> response with the response of
  \<open>pulls.listReviews\<close> for it (\<open>None\<close> when that request throws). Timestamps are
  milliseconds since the epoch, as \<open>Date.getTime\<close> gives them.
\<close>

record review =
  userLogin :: "string option"
  submittedAt :: "int option"

record closedPull =
  mergedAt :: "int option"
  closedAt :: "int option"
  createdAt :: int
  reviewsResp :: "review list option"

text \<open>
  \<^verbatim>\<open>
  const firstByUser = new Map();
  for (const r of reviewsResp.data) {
    const login = r.user?.login;
    if (!login || isBotLogin(login)) continue;
    if (!r.submitted_at) continue;
    const t = new Date(r.submitted_at);
    const existing = firstByUser.get(login);
    if (!existing || t < existing) firstByUser.set(login, t);
  }
  \<close>
\<close>

definition firstReviewStep :: "review \<Rightarrow> (string \<times> int) list \<Rightarrow> (string \<times> int) list" where
  "firstReviewStep r firstByUser =
     (case userLogin r of
        None \<Rightarrow> firstByUser
      | Some login \<Rightarrow>
          if login = [] \<or> isBotLogin login then firstByUser
          else (case submittedAt r of
                  None \<Rightarrow> firstByUser
                | Some t \<Rightarrow>
                    (case map_of firstByUser login of
                       None \<Rightarrow> AList.update login t firstByUser
                     | Some existing \<Rightarrow>
                         if t < existing then AList.update login t firstByUser
                         else firstByUser)))"

text \<open>
  \<^verbatim>\<open>
  for (const [login, t] of firstByUser.entries()) {
    const hours = (t.getTime() - createdAt.getTime()) / (1000 * 60 * 60);
    if (!Number.isFinite(hours) || hours < 0) continue;
    if (!perReviewer.has(login)) perReviewer.set(login, []);
    perReviewer.get(login).push(hours);
  }
  \<close>
  Every real is finite, so only the sign is tested.
\<close>

definition accumulateStep ::
  "int \<Rightarrow> string \<times> int \<Rightarrow> (string \<times> real list) list \<Rightarrow> (string \<times> real list) list" where
  "accumulateStep created entry perReviewer =
     (let hours = real_of_int (snd entry - created) / (1000 * 60 * 60)
      in if hours < 0 then perReviewer
         else (case map_of perReviewer (fst entry) of
                 None \<Rightarrow> AList.update (fst entry) [hours] perReviewer
               | Some arr \<Rightarrow> AList.update (fst entry) (arr @ [hours]) perReviewer))"

definition latencyPullStep ::
  "int \<Rightarrow> closedPull \<Rightarrow> (string \<times> real list) list \<Rightarrow> (string \<times> real list) list" where
  "latencyPullStep since pr perReviewer =
     (if mergedAt pr = None \<and> closedAt pr = None then perReviewer
      else if createdAt pr < since then perReviewer
      else (case reviewsResp pr of
              None \<Rightarrow> perReviewer
            | Some reviews \<Rightarrow>
                fold (accumulateStep (createdAt pr)) (fold firstReviewStep reviews [])
                  perReviewer))"

definition accumulateLatencies :: "int \<Rightarrow> closedPull list \<Rightarrow> (string \<times> real list) list" where
  "accumulateLatencies since pulls = fold (latencyPullStep since) pulls []"

text \<open>
  \<^verbatim>\<open>
  const out = new Map();
  for (const [login, arr] of perReviewer.entries()) {
    const m = median(arr);
    if (m != null) out.set(login, m);
  }
  return out;
  \<close>
\<close>

definition medianStep :: "string \<times> real list \<Rightarrow> (string \<times> real) list \<Rightarrow> (string \<times> real) list" where
  "medianStep entry out =
     (case median (snd entry) of None \<Rightarrow> out | Some m \<Rightarrow> AList.update (fst entry) m out)"

definition computeReviewerLatencyHours :: "int \<Rightarrow> closedPull list \<Rightarrow> (string \<times> real) list" where
  "computeReviewerLatencyHours since pulls =
     fold medianStep (accumulateLatencies since pulls) []"

text \<open>
  \<^verbatim>\<open>
  function latencyBonusHours(medianHours) {
    if (medianHours == null) return 0;
    if (medianHours <= 4) return 6;
    if (medianHours <= 12) return 4;
    if (medianHours <= 24) return 2;
    if (medianHours <= 48) return 1;
    return 0;
  }
  \<close>
\<close>

definition latencyBonusHours :: "real option \<Rightarrow> int" where
  "latencyBonusHours medianHours =
     (case medianHours of
        None \<Rightarrow> 0
      | Some h \<Rightarrow>
          if h \<le> 4 then 6
          else if h \<le> 12 then 4
          else if h \<le> 24 then 2
          else if h \<le> 48 then 1
          else 0)"

section \<open>Review load\<close>

text \<open>
  An open pull request of a \<open>pulls.list\<close> response: the logins of
  \<open>pr.requested_reviewers || []\<close>, each possibly missing.

  \<^verbatim>\<open>
  const counts = new Map();
  for (const pr of pulls.data) {
    for (const reviewer of (pr.requested_reviewers || [])) {
      const login = reviewer.login;
      if (!login) continue;
      counts.set(login, (counts.get(login) || 0) + 1);
    }
  }
  return counts;
  \<close>
\<close>

record openPull =
  requestedReviewers :: "string option list"

definition countReviewerStep :: "string option \<Rightarrow> (string \<times> nat) list \<Rightarrow> (string \<times> nat) list" where
  "countReviewerStep reviewer counts =
     (case reviewer of
        None \<Rightarrow> counts
      | Some login \<Rightarrow> if login = [] then counts else bump login counts)"

definition computeOpenReviewCounts :: "openPull list \<Rightarrow> (string \<times> nat) list" where
  "computeOpenReviewCounts pulls =
     fold (\<lambda>pr counts. fold countReviewerStep (requestedReviewers pr) counts) pulls []"

text \<open>
  \<^verbatim>\<open>
  function applyLoadPenalty(score, openReviews) {
    return score * (1 / (1 + openReviews / 3));
  }
  \<close>
\<close>

definition applyLoadPenalty :: "rat \<Rightarrow> rat \<Rightarrow> rat" where
  "applyLoadPenalty score openReviews =
     toDouble (score * toDouble (1 / toDouble (1 + toDouble (openReviews / 3))))"

section \<open>Reviewer exclusion\<close>

text \<open>
  \<open>fetchExcludedReviewers\<close> starts from the lower-cased input exclusions and adds the
  entries of \<open>.github/reviewer-config.yml\<close>. The regular expressions that cut the
  entries out of the file text are not modelled: \<open>configEntries\<close> is the list of
  entries they yield, trimmed and unquoted (empty when the file is missing or has no
  \<open>exclude\<close> key). Each is lower-cased and added when it is not empty.
  \<^verbatim>\<open>
  const excluded = new Set(inputExcludes.map((s) => s.toLowerCase()));
  ...
      const trimmed = u.trim().replace(/^['"]|['"]$/g, "").toLowerCase();
      if (trimmed) excluded.add(trimmed);
  \<close>
\<close>

definition fetchExcludedReviewers :: "string list \<Rightarrow> string list \<Rightarrow> string list" where
  "fetchExcludedReviewers inputExcludes configEntries =
     (let excluded = fold setAdd (map toLowerCase inputExcludes) []
      in fold (\<lambda>u ex. (let trimmed = toLowerCase u
                        in if trimmed \<noteq> [] then setAdd trimmed ex else ex))
              configEntries excluded)"

section \<open>Cross-repository expertise\<close>

text \<open>
  \<open>listCommits repoName filePath\<close> is the response of the commit listing of another
  repository for a path, \<open>None\<close> when the request throws.
  \<^verbatim>\<open>
  for (const repoName of repos) {
    for (const filePath of filePaths.slice(0, 5)) {
      try {
        const resp = await octokit.rest.repos.listCommits({...});
        for (const c of resp.data) {
          const login = c.author?.login;
          if (!login || isBotLogin(login)) continue;
          expertise.set(login, (expertise.get(login) || 0) + 1);
        }
      } catch { }
    }
  }
  \<close>
\<close>

definition expertiseStep :: "commit \<Rightarrow> (string \<times> nat) list \<Rightarrow> (string \<times> nat) list" where
  "expertiseStep c expertise =
     (case authorLogin c of
        None \<Rightarrow> expertise
      | Some login \<Rightarrow>
          if login = [] \<or> isBotLogin login then expertise else bump login expertise)"

definition fetchCrossRepoExpertise ::
  "(string \<Rightarrow> string \<Rightarrow> commit list option) \<Rightarrow> string list \<Rightarrow> string list \<Rightarrow> (string \<times> nat) list" where
  "fetchCrossRepoExpertise listCommits repos filePaths =
     fold (\<lambda>repoName expertise.
             fold (\<lambda>filePath expertise.
                     (case listCommits repoName filePath of
                        None \<Rightarrow> expertise
                      | Some resp \<Rightarrow> fold expertiseStep resp expertise))
                  (take 5 filePaths) expertise)
          repos []"

section \<open>Timezone awareness\<close>

text \<open>JavaScript's \<open>%\<close> truncates: the result has the sign of the dividend.\<close>

definition jsRem :: "int \<Rightarrow> int \<Rightarrow> int" where
  "jsRem a b = sgn a * (\<bar>a\<bar> mod \<bar>b\<bar>)"

text \<open>
  \<^verbatim>\<open>
  function timezoneBonus(avgHourUTC, preferredOffsetHours) {
    if (avgHourUTC == null || preferredOffsetHours == null) return 0;
    const preferredCenterUTC = (14 - preferredOffsetHours + 24) % 24;
    const diff = Math.abs(avgHourUTC - preferredCenterUTC);
    const wrappedDiff = Math.min(diff, 24 - diff);
    if (wrappedDiff <= 4) return 3;
    if (wrappedDiff <= 8) return 1;
    return 0;
  }
  \<close>
\<close>

definition timezoneBonus :: "int option \<Rightarrow> int option \<Rightarrow> int" where
  "timezoneBonus avgHourUTC preferredOffsetHours =
     (case avgHourUTC of
        None \<Rightarrow> 0
      | Some avg \<Rightarrow>
          (case preferredOffsetHours of
             None \<Rightarrow> 0
           | Some off \<Rightarrow>
               (let preferredCenterUTC = jsRem (14 - off + 24) 24;
                    diff = \<bar>avg - preferredCenterUTC\<bar>;
                    wrappedDiff = min diff (24 - diff)
                in if wrappedDiff \<le> 4 then 3
                   else if wrappedDiff \<le> 8 then 1
                   else 0)))"

record timezoneData =
  preferredOffset :: "int option"
  avgHours :: "(string \<times> int) list"

section \<open>Flaky reviewer detection\<close>

text \<open>
  \<^verbatim>\<open>
  for (const pr of pulls.data) {
    if (new Date(pr.created_at) < since) continue;
    let reviewsResp;
    try { reviewsResp = await octokit.rest.pulls.listReviews({...}); } catch { continue; }
    const reviewed = new Set();
    for (const r of reviewsResp.data) {
      const login = r.user?.login;
      if (login) reviewed.add(login.toLowerCase());
    }
    for (const login of reviewed) {
      reviewedCounts.set(login, (reviewedCounts.get(login) || 0) + 1);
    }
  }
  \<close>
\<close>

definition reviewedSet :: "review list \<Rightarrow> string list" where
  "reviewedSet reviews =
     fold (\<lambda>r reviewed.
             (case userLogin r of
                None \<Rightarrow> reviewed
              | Some login \<Rightarrow>
                  if login \<noteq> [] then setAdd (toLowerCase login) reviewed else reviewed))
          reviews []"

definition reviewedPullStep :: "int \<Rightarrow> closedPull \<Rightarrow> (string \<times> nat) list \<Rightarrow> (string \<times> nat) list" where
  "reviewedPullStep since pr reviewedCounts =
     (if createdAt pr < since then reviewedCounts
      else (case reviewsResp pr of
              None \<Rightarrow> reviewedCounts
            | Some reviews \<Rightarrow> fold bump (reviewedSet reviews) reviewedCounts))"

text \<open>
  \<^verbatim>\<open>
  for (const pr of openPulls.data) {
    for (const reviewer of (pr.requested_reviewers || [])) {
      const login = (reviewer.login || "").toLowerCase();
      if (login) requestedCounts.set(login, (requestedCounts.get(login) || 0) + 1);
    }
  }
  \<close>
\<close>

definition requestedStep :: "string option \<Rightarrow> (string \<times> nat) list \<Rightarrow> (string \<times> nat) list" where
  "requestedStep reviewer requestedCounts =
     (let login = toLowerCase (case reviewer of None \<Rightarrow> [] | Some l \<Rightarrow> l)
      in if login \<noteq> [] then bump login requestedCounts else requestedCounts)"

text \<open>
  \<^verbatim>\<open>
  const flaky = new Set();
  for (const [login, requested] of requestedCounts) {
    const reviewed = reviewedCounts.get(login) || 0;
    if (requested >= 3 && reviewed < requested) flaky.add(login);
  }
  return flaky;
  \<close>
\<close>

definition flakyStep :: "(string \<times> nat) list \<Rightarrow> string \<times> nat \<Rightarrow> string list \<Rightarrow> string list" where
  "flakyStep reviewedCounts entry flaky =
     (let reviewed = getCount reviewedCounts (fst entry)
      in if snd entry \<ge> 3 \<and> reviewed < snd entry then setAdd (fst entry) flaky else flaky)"

definition detectFlakyReviewers :: "int \<Rightarrow> closedPull list \<Rightarrow> openPull list \<Rightarrow> string list" where
  "detectFlakyReviewers since pulls openPulls =
     (let reviewedCounts = fold (reviewedPullStep since) pulls [];
          requestedCounts =
            fold (\<lambda>pr rq. fold requestedStep (requestedReviewers pr) rq) openPulls []
      in fold (flakyStep reviewedCounts) requestedCounts [])"

section \<open>Ranking\<close>

record weights =
  commitHistory :: int
  codeowners :: int
  latency :: int

record fileAuthorsEntry =
  path :: string
  authors :: "string list"

record candidate =
  login :: string
  score :: int
  reasons :: "string list"
  openReviews :: "nat option"

text \<open>
  The two accumulators of \<open>rankCandidates\<close>: the map \<open>scores\<close> and the map \<open>reasons\<close>
  (a set of reasons per login), both in insertion order.
\<close>

type_synonym rankState = "(string \<times> int) list \<times> (string \<times> string list) list"

definition getScore :: "(string \<times> int) list \<Rightarrow> string \<Rightarrow> int" where
  "getScore m l = (case map_of m l of None \<Rightarrow> 0 | Some s \<Rightarrow> s)"

definition getReasons :: "(string \<times> string list) list \<Rightarrow> string \<Rightarrow> string list" where
  "getReasons m l = (case map_of m l of None \<Rightarrow> [] | Some rs \<Rightarrow> rs)"

text \<open>
  \<^verbatim>\<open>
  const add = (login, pts, reason) => {
    if (!login || isBotLogin(login)) return;
    if (login === prAuthor) return;
    scores.set(login, (scores.get(login) || 0) + pts);
    if (!reasons.has(login)) reasons.set(login, new Set());
    if (reason) reasons.get(login).add(reason);
  };
  \<close>
  \<open>prAuthor\<close> is \<open>pull_request.user?.login\<close>, \<open>None\<close> when it is undefined.
\<close>

definition add :: "string option \<Rightarrow> string \<Rightarrow> int \<Rightarrow> string \<Rightarrow> rankState \<Rightarrow> rankState" where
  "add prAuthor l pts reason st =
     (if l = [] \<or> isBotLogin l then st
      else if Some l = prAuthor then st
      else (let scores' = AList.update l (getScore (fst st) l + pts) (fst st);
                reasons1 = (if map_of (snd st) l = None then AList.update l [] (snd st)
                            else snd st);
                reasons2 = (if reason \<noteq> []
                            then AList.update l (setAdd reason (getReasons reasons1 l)) reasons1
                            else reasons1)
            in (scores', reasons2)))"

text \<open>
  \<^verbatim>\<open>
  for (const { authors } of fileAuthors) {
    const max = Math.min(authors.length, 10);
    for (let i = 0; i < max; i++) {
      const w = Math.max(1, 3 - i);
      add(authors[i], w * weights.commitHistory, "recent commits");
    }
  }
  \<close>
\<close>

definition commitCreditLoop :: "string option \<Rightarrow> weights \<Rightarrow> string list \<Rightarrow> rankState \<Rightarrow> rankState" where
  "commitCreditLoop prAuthor w as st =
     (let mx = min (length as) 10
      in fold (\<lambda>i st. (let wt = max 1 (3 - int i)
                        in add prAuthor (as ! i) (wt * commitHistory w) ''recent commits'' st))
              [0..<mx] st)"

definition commitBlock ::
  "string option \<Rightarrow> weights \<Rightarrow> fileAuthorsEntry list \<Rightarrow> rankState \<Rightarrow> rankState" where
  "commitBlock prAuthor w fileAuthors st =
     fold (\<lambda>fa st. commitCreditLoop prAuthor w (authors fa) st) fileAuthors st"

text \<open>
  \<^verbatim>\<open>
  if (weights.codeowners > 0 && codeownersRules.length) {
    const seen = new Set();
    for (const f of changedFiles) {
      const owners = ownersForFile(codeownersRules, f);
      for (const o of owners) {
        if (!o) continue;
        const key = `${o}::${f}`;
        if (seen.has(key)) continue;
        seen.add(key);
        add(o, weights.codeowners, "CODEOWNERS");
      }
    }
  }
  \<close>
\<close>

definition ownerStep ::
  "string option \<Rightarrow> weights \<Rightarrow> string \<Rightarrow> string \<Rightarrow> string list \<times> rankState \<Rightarrow> string list \<times> rankState" where
  "ownerStep prAuthor w f own acc =
     (if own = [] then acc
      else (let key = own @ ''::'' @ f
            in if key \<in> set (fst acc) then acc
               else (setAdd key (fst acc),
                     add prAuthor own (codeowners w) ''CODEOWNERS'' (snd acc))))"

definition codeownersBlock ::
  "matcher \<Rightarrow> string option \<Rightarrow> weights \<Rightarrow> rule list \<Rightarrow> string list \<Rightarrow> rankState \<Rightarrow> rankState" where
  "codeownersBlock mm prAuthor w codeownersRules changedFiles st =
     (if codeowners w > 0 \<and> codeownersRules \<noteq> []
      then snd (fold (\<lambda>f acc. fold (ownerStep prAuthor w f) (ownersForFile mm codeownersRules f) acc)
                     changedFiles ([], st))
      else st)"

text \<open>
  \<^verbatim>\<open>
  if (weights.latency > 0 && latencyMap && latencyMap.size) {
    for (const [login, medHrs] of latencyMap.entries()) {
      const bonus = latencyBonusHours(medHrs) * weights.latency;
      if (bonus > 0) add(login, bonus, `fast reviewer (~${Math.round(medHrs)}h median)`);
    }
  }
  \<close>
\<close>

definition latencyStep :: "string option \<Rightarrow> weights \<Rightarrow> string \<times> real \<Rightarrow> rankState \<Rightarrow> rankState" where
  "latencyStep prAuthor w entry st =
     (let bonus = latencyBonusHours (Some (snd entry)) * latency w
      in if bonus > 0
         then add prAuthor (fst entry) bonus
                (''fast reviewer (~'' @ showInt (jsRound (snd entry)) @ ''h median)'') st
         else st)"

definition latencyBlock ::
  "string option \<Rightarrow> weights \<Rightarrow> (string \<times> real) list \<Rightarrow> rankState \<Rightarrow> rankState" where
  "latencyBlock prAuthor w latencyMap st =
     (if latency w > 0 \<and> latencyMap \<noteq> [] then fold (latencyStep prAuthor w) latencyMap st
      else st)"

text \<open>
  \<^verbatim>\<open>
  if (crossRepoExpertise && crossRepoExpertise.size > 0) {
    for (const [login, count] of crossRepoExpertise) {
      add(login, Math.min(count, 5), "cross-repo expertise");
    }
  }
  \<close>
\<close>

definition crossRepoStep :: "string option \<Rightarrow> string \<times> nat \<Rightarrow> rankState \<Rightarrow> rankState" where
  "crossRepoStep prAuthor entry st =
     add prAuthor (fst entry) (int (min (snd entry) 5)) ''cross-repo expertise'' st"

definition crossRepoBlock :: "string option \<Rightarrow> (string \<times> nat) list \<Rightarrow> rankState \<Rightarrow> rankState" where
  "crossRepoBlock prAuthor crossRepoExpertise st =
     (if crossRepoExpertise \<noteq> [] then fold (crossRepoStep prAuthor) crossRepoExpertise st
      else st)"

text \<open>
  \<^verbatim>\<open>
  if (timezoneData && timezoneData.preferredOffset != null) {
    for (const [login, avgHour] of (timezoneData.avgHours || new Map())) {
      const bonus = timezoneBonus(avgHour, timezoneData.preferredOffset);
      if (bonus > 0) add(login, bonus, "timezone match");
    }
  }
  \<close>
\<close>

definition timezoneStep :: "string option \<Rightarrow> int option \<Rightarrow> string \<times> int \<Rightarrow> rankState \<Rightarrow> rankState" where
  "timezoneStep prAuthor off entry st =
     (let bonus = timezoneBonus (Some (snd entry)) off
      in if bonus > 0 then add prAuthor (fst entry) bonus ''timezone match'' st else st)"

definition timezoneBlock :: "string option \<Rightarrow> timezoneData option \<Rightarrow> rankState \<Rightarrow> rankState" where
  "timezoneBlock prAuthor tz st =
     (case tz of
        None \<Rightarrow> st
      | Some td \<Rightarrow>
          if preferredOffset td \<noteq> None
          then fold (timezoneStep prAuthor (preferredOffset td)) (avgHours td) st
          else st)"

text \<open>
  \<^verbatim>\<open>
  if (requiredReviewers && requiredReviewers.length > 0) {
    for (const login of requiredReviewers) {
      if (login === prAuthor || isBotLogin(login)) continue;
      const current = scores.get(login) || 0;
      if (current === 0) add(login, 10, "required reviewer");
      else add(login, 5, "required reviewer");
    }
  }
  \<close>
\<close>

definition requiredStep :: "string option \<Rightarrow> string \<Rightarrow> rankState \<Rightarrow> rankState" where
  "requiredStep prAuthor l st =
     (if Some l = prAuthor \<or> isBotLogin l then st
      else (let current = getScore (fst st) l
            in if current = 0 then add prAuthor l 10 ''required reviewer'' st
               else add prAuthor l 5 ''required reviewer'' st))"

definition requiredBlock :: "string option \<Rightarrow> string list \<Rightarrow> rankState \<Rightarrow> rankState" where
  "requiredBlock prAuthor required st =
     (if required \<noteq> [] then fold (requiredStep prAuthor) required st else st)"

text \<open>
  The state before the required-reviewer step, the state after it, and the ranking:
  \<^verbatim>\<open>
  return [...scores.entries()]
    .sort((a, b) => b[1] - a[1])
    .map(([login, score]) => ({ login, score, reasons: [...(reasons.get(login) || [])] }));
  \<close>
  \<open>Array.prototype.sort\<close> is stable, as \<^const>\<open>sort_key\<close> is.
\<close>

definition signalState ::
  "matcher \<Rightarrow> fileAuthorsEntry list \<Rightarrow> string option \<Rightarrow> rule list \<Rightarrow> string list \<Rightarrow>
   (string \<times> real) list \<Rightarrow> weights \<Rightarrow> (string \<times> nat) list \<Rightarrow> timezoneData option \<Rightarrow> rankState" where
  "signalState mm fileAuthors prAuthor codeownersRules changedFiles latencyMap w
     crossRepoExpertise tz =
     timezoneBlock prAuthor tz
       (crossRepoBlock prAuthor crossRepoExpertise
          (latencyBlock prAuthor w latencyMap
             (codeownersBlock mm prAuthor w codeownersRules changedFiles
                (commitBlock prAuthor w fileAuthors ([], [])))))"

definition rankedOf :: "rankState \<Rightarrow> candidate list" where
  "rankedOf st =
     map (\<lambda>e. \<lparr>login = fst e, score = snd e, reasons = getReasons (snd st) (fst e),
               openReviews = None\<rparr>)
         (sort_key (\<lambda>e. - snd e) (fst st))"

definition rankCandidates ::
  "matcher \<Rightarrow> fileAuthorsEntry list \<Rightarrow> string option \<Rightarrow> rule list \<Rightarrow> string list \<Rightarrow>
   (string \<times> real) list \<Rightarrow> weights \<Rightarrow> (string \<times> nat) list \<Rightarrow> timezoneData option \<Rightarrow>
   string list \<Rightarrow> candidate list" where
  "rankCandidates mm fileAuthors prAuthor codeownersRules changedFiles latencyMap w
     crossRepoExpertise tz required =
     rankedOf (requiredBlock prAuthor required
                 (signalState mm fileAuthors prAuthor codeownersRules changedFiles latencyMap w
                    crossRepoExpertise tz))"

section \<open>Confidence\<close>

datatype confidence = High | Medium | Low

text \<open>
  \<^verbatim>\<open>
  const top = ranked[0]?.score || 0;
  const second = ranked[1]?.score || 0;
  \<close>
\<close>

definition topScore :: "candidate list \<Rightarrow> int" where
  "topScore ranked = (case ranked of [] \<Rightarrow> 0 | r # _ \<Rightarrow> score r)"

definition secondScore :: "candidate list \<Rightarrow> int" where
  "secondScore ranked = (case ranked of r # r2 # _ \<Rightarrow> score r2 | _ \<Rightarrow> 0)"

text \<open>
  \<^verbatim>\<open>
  let covered = 0;
  const byFileHasSignal = new Map(changedFiles.map((f) => [f, false]));
  if (fileAuthors.length) {
    const approx = Math.min(changedFiles.length, Math.max(1, Math.floor(fileAuthors.length)));
    covered = Math.max(covered, approx);
  }
  if (codeownersRules.length) {
    for (const f of changedFiles) {
      if (ownersForFile(codeownersRules, f).length) byFileHasSignal.set(f, true);
    }
  }
  const codeownersCovered = [...byFileHasSignal.values()].filter(Boolean).length;
  covered = Math.max(covered, codeownersCovered);
  const coverageRatio = changedFiles.length ? covered / changedFiles.length : 0;
  \<close>
\<close>

definition coverageRatio ::
  "matcher \<Rightarrow> string list \<Rightarrow> rule list \<Rightarrow> fileAuthorsEntry list \<Rightarrow> real" where
  "coverageRatio mm changedFiles codeownersRules fileAuthors =
     (let covered0 = (if fileAuthors \<noteq> []
                      then max 0 (min (length changedFiles) (max 1 (length fileAuthors)))
                      else 0);
          byFile0 = fold (\<lambda>f m. AList.update f False m) changedFiles [];
          byFileHasSignal =
            (if codeownersRules \<noteq> []
             then fold (\<lambda>f m. if ownersForFile mm codeownersRules f \<noteq> []
                              then AList.update f True m else m)
                       changedFiles byFile0
             else byFile0);
          codeownersCovered = length (filter (\<lambda>b. b) (map snd byFileHasSignal));
          covered = max covered0 codeownersCovered
      in if changedFiles \<noteq> [] then real covered / real (length changedFiles) else 0)"

text \<open>
  \<^verbatim>\<open>
  const separation = top > 0 ? (top - second) / top : 0;
  if (top >= 12 && coverageRatio >= 0.5 && separation >= 0.25) return "High";
  if (top >= 6 && coverageRatio >= 0.25) return "Medium";
  return "Low";
  \<close>
\<close>

definition computeConfidence ::
  "matcher \<Rightarrow> candidate list \<Rightarrow> string list \<Rightarrow> rule list \<Rightarrow> fileAuthorsEntry list \<Rightarrow> confidence" where
  "computeConfidence mm ranked changedFiles codeownersRules fileAuthors =
     (let topS = topScore ranked;
          secondS = secondScore ranked;
          cov = coverageRatio mm changedFiles codeownersRules fileAuthors;
          separation = (if topS > 0 then real_of_int (topS - secondS) / real_of_int topS else 0)
      in if topS \<ge> 12 \<and> cov \<ge> 0.5 \<and> separation \<ge> 0.25 then High
         else if topS \<ge> 6 \<and> cov \<ge> 0.25 then Medium
         else Low)"

text \<open>The separation as the specification words it.\<close>

definition specSeparation :: "int \<Rightarrow> int \<Rightarrow> real" where
  "specSeparation topS secondS =
     (if topS = 0 then 0 else real_of_int (topS - secondS) / real_of_int topS)"

section \<open>The reviewer analysis\<close>

text \<open>
  The configuration that \<open>analyzeReviewers\<close> reads. \<open>preferredTimezoneOffset\<close> is
  \<open>parseTimezoneOffset(preferTimezone)\<close>; the look-back window and the page sizes only
  shape the requests, whose responses are in \<open>apiData\<close>.
\<close>

record config =
  maxReviewers :: nat
  maxFiles :: nat
  useCodeowners :: bool
  useLatency :: bool
  penalizeLoad :: bool
  excludeReviewersInput :: "string list"
  crossRepoList :: "string list"
  requiredReviewers :: "string list"
  preferredTimezoneOffset :: "int option"
  detectFlaky :: bool

text \<open>
  What the requests of one run return; \<open>None\<close> is a request that throws.
  \<open>codeownersParsed\<close> is \<open>parseCodeowners\<close> of the first CODEOWNERS text found,
  \<open>exclusionEntries\<close> the entries read from the repository's exclusion file, and the two
  \<open>since\<close> fields the start of the look-back window when the step runs.
\<close>

record apiData =
  codeownersParsed :: "rule list"
  pathCommits :: "string \<Rightarrow> commit list option"
  latencySince :: int
  latencyPulls :: "closedPull list option"
  exclusionEntries :: "string list"
  crossRepoCommits :: "string \<Rightarrow> string \<Rightarrow> commit list option"
  timezoneCommits :: "string \<Rightarrow> commit list option"
  flakySince :: int
  flakyClosedPulls :: "closedPull list option"
  flakyOpenPulls :: "openPull list option"
  loadOpenPulls :: "openPull list option"

text \<open>
  \<^verbatim>\<open>
  const weights = {
    commitHistory: 1,
    codeowners: useCodeowners ? 4 : 0,
    latency: useLatency ? 1 : 0
  };
  \<close>
\<close>

definition weightsOf :: "config \<Rightarrow> weights" where
  "weightsOf cfg =
     \<lparr>commitHistory = 1,
      codeowners = (if useCodeowners cfg then 4 else 0),
      latency = (if useLatency cfg then 1 else 0)\<rparr>"

definition codeownersRulesOf :: "config \<Rightarrow> apiData \<Rightarrow> rule list" where
  "codeownersRulesOf cfg api = (if useCodeowners cfg then codeownersParsed api else [])"

definition filesToCheckOf :: "config \<Rightarrow> string list \<Rightarrow> string list" where
  "filesToCheckOf cfg changedFiles = take (maxFiles cfg) changedFiles"

text \<open>
  \<^verbatim>\<open>
  for (const path of filesToCheck) {
    try {
      const authors = await topCommitAuthorsForPath(octokit, { owner, repo, path, sinceISO });
      if (authors.length) fileAuthors.push({ path, authors });
    } catch (e) { core.warning(...); }
  }
  \<close>
\<close>

definition fileAuthorsStep ::
  "(string \<Rightarrow> commit list option) \<Rightarrow> string \<Rightarrow> fileAuthorsEntry list \<Rightarrow> fileAuthorsEntry list" where
  "fileAuthorsStep listCommits p acc =
     (case listCommits p of
        None \<Rightarrow> acc
      | Some resp \<Rightarrow>
          (let as = topCommitAuthorsForPath resp
           in if as \<noteq> [] then acc @ [\<lparr>path = p, authors = as\<rparr>] else acc))"

definition fileAuthorsOf :: "config \<Rightarrow> apiData \<Rightarrow> string list \<Rightarrow> fileAuthorsEntry list" where
  "fileAuthorsOf cfg api changedFiles =
     fold (fileAuthorsStep (pathCommits api)) (filesToCheckOf cfg changedFiles) []"

definition latencyMapOf :: "config \<Rightarrow> apiData \<Rightarrow> (string \<times> real) list" where
  "latencyMapOf cfg api =
     (if useLatency cfg
      then (case latencyPulls api of
              None \<Rightarrow> []
            | Some pulls \<Rightarrow> computeReviewerLatencyHours (latencySince api) pulls)
      else [])"

definition excludedOf :: "config \<Rightarrow> apiData \<Rightarrow> string list" where
  "excludedOf cfg api = fetchExcludedReviewers (excludeReviewersInput cfg) (exclusionEntries api)"

definition crossRepoExpertiseOf :: "config \<Rightarrow> apiData \<Rightarrow> string list \<Rightarrow> (string \<times> nat) list" where
  "crossRepoExpertiseOf cfg api changedFiles =
     (if crossRepoList cfg \<noteq> []
      then fetchCrossRepoExpertise (crossRepoCommits api) (crossRepoList cfg) changedFiles
      else [])"

text \<open>
  \<^verbatim>\<open>
  for (const c of resp.data) {
    const login = c.author?.login;
    const date = c.commit?.author?.date;
    if (!login || !date) continue;
    if (!avgHours.has(login)) avgHours.set(login, []);
    avgHours.get(login).push(new Date(date).getUTCHours());
  }
  ...
  for (const [login, hours] of avgHours) {
    const avg = Math.round(hours.reduce((a, b) => a + b, 0) / hours.length);
    avgHourMap.set(login, avg);
  }
  timezoneData = { preferredOffset, avgHours: avgHourMap };
  \<close>
\<close>

definition hourStep :: "commit \<Rightarrow> (string \<times> nat list) list \<Rightarrow> (string \<times> nat list) list" where
  "hourStep c acc =
     (case authorLogin c of
        None \<Rightarrow> acc
      | Some l \<Rightarrow>
          if l = [] then acc
          else (case authorDateHour c of
                  None \<Rightarrow> acc
                | Some h \<Rightarrow>
                    (case map_of acc l of
                       None \<Rightarrow> AList.update l [h] acc
                     | Some hs \<Rightarrow> AList.update l (hs @ [h]) acc)))"

definition averageStep :: "string \<times> nat list \<Rightarrow> (string \<times> int) list \<Rightarrow> (string \<times> int) list" where
  "averageStep entry m =
     AList.update (fst entry)
       (jsRound (real (sum_list (snd entry)) / real (length (snd entry)))) m"

definition timezoneDataOf :: "config \<Rightarrow> apiData \<Rightarrow> fileAuthorsEntry list \<Rightarrow> timezoneData option" where
  "timezoneDataOf cfg api fileAuthors =
     (case preferredTimezoneOffset cfg of
        None \<Rightarrow> None
      | Some off \<Rightarrow>
          (let hoursByLogin =
                 fold (\<lambda>fa acc. (case timezoneCommits api (path fa) of
                                    None \<Rightarrow> acc
                                  | Some resp \<Rightarrow> fold hourStep resp acc))
                      fileAuthors [];
               avgHourMap = fold averageStep hoursByLogin []
           in Some \<lparr>preferredOffset = Some off, avgHours = avgHourMap\<rparr>))"

definition flakyReviewersOf :: "config \<Rightarrow> apiData \<Rightarrow> string list" where
  "flakyReviewersOf cfg api =
     (if detectFlaky cfg
      then (case flakyClosedPulls api of
              None \<Rightarrow> []
            | Some pulls \<Rightarrow>
                (case flakyOpenPulls api of
                   None \<Rightarrow> []
                 | Some openPulls \<Rightarrow> detectFlakyReviewers (flakySince api) pulls openPulls))
      else [])"

text \<open>
  \<^verbatim>\<open>
  let ranked = rankCandidates({
    fileAuthors, prAuthor, codeownersRules, changedFiles: filesToCheck,
    latencyMap, weights, crossRepoExpertise, timezoneData, requiredReviewers
  });
  ranked = ranked.filter((r) => !excluded.has(r.login.toLowerCase()));
  \<close>
\<close>

definition baseRanking ::
  "matcher \<Rightarrow> string option \<Rightarrow> string list \<Rightarrow> config \<Rightarrow> apiData \<Rightarrow> candidate list" where
  "baseRanking mm prAuthor changedFiles cfg api =
     (let fileAuthors = fileAuthorsOf cfg api changedFiles
      in rankCandidates mm fileAuthors prAuthor (codeownersRulesOf cfg api)
           (filesToCheckOf cfg changedFiles) (latencyMapOf cfg api) (weightsOf cfg)
           (crossRepoExpertiseOf cfg api changedFiles) (timezoneDataOf cfg api fileAuthors)
           (requiredReviewers cfg))"

definition excludeFilter :: "string list \<Rightarrow> candidate list \<Rightarrow> candidate list" where
  "excludeFilter excluded ranked =
     filter (\<lambda>r. toLowerCase (login r) \<notin> set excluded) ranked"

definition afterExclusion ::
  "matcher \<Rightarrow> string option \<Rightarrow> string list \<Rightarrow> config \<Rightarrow> apiData \<Rightarrow> candidate list" where
  "afterExclusion mm prAuthor changedFiles cfg api =
     excludeFilter (excludedOf cfg api) (baseRanking mm prAuthor changedFiles cfg api)"

text \<open>
  \<^verbatim>\<open>
  if (penalizeLoad) {
    try {
      const loadCounts = await computeOpenReviewCounts(octokit, { owner, repo });
      for (const r of ranked) {
        const openReviews = loadCounts.get(r.login) || 0;
        r.openReviews = openReviews;
        r.score = Math.round(applyLoadPenalty(r.score, openReviews));
      }
      ranked.sort((a, b) => b.score - a.score);
    } catch (e) { core.warning(...); }
  }
  \<close>
\<close>

text \<open>\<open>loadPenalized s n\<close> is \<open>Math.round(applyLoadPenalty(r.score, openReviews))\<close>.\<close>

definition loadPenalized :: "int \<Rightarrow> nat \<Rightarrow> int" where
  "loadPenalized s n = jsRound (real_of_rat (applyLoadPenalty (of_int s) (of_nat n)))"

definition loadStep :: "(string \<times> nat) list \<Rightarrow> candidate \<Rightarrow> candidate" where
  "loadStep loadCounts r =
     (let n = getCount loadCounts (login r)
      in r\<lparr>openReviews := Some n, score := loadPenalized (score r) n\<rparr>)"

definition sortByScore :: "candidate list \<Rightarrow> candidate list" where
  "sortByScore ranked = sort_key (\<lambda>r. - score r) ranked"

definition afterLoad ::
  "matcher \<Rightarrow> string option \<Rightarrow> string list \<Rightarrow> config \<Rightarrow> apiData \<Rightarrow> candidate list" where
  "afterLoad mm prAuthor changedFiles cfg api =
     (let ranked = afterExclusion mm prAuthor changedFiles cfg api
      in if penalizeLoad cfg
         then (case loadOpenPulls api of
                 None \<Rightarrow> ranked
               | Some pulls \<Rightarrow>
                   sortByScore (map (loadStep (computeOpenReviewCounts pulls)) ranked))
         else ranked)"

text \<open>
  \<^verbatim>\<open>
  if (flakyReviewers.size > 0) {
    for (const r of ranked) {
      if (flakyReviewers.has(r.login.toLowerCase())) {
        r.score = Math.round(r.score * 0.5);
        r.reasons = [...(r.reasons || []), "flaky reviewer"];
      }
    }
    ranked.sort((a, b) => b.score - a.score);
  }
  \<close>
\<close>

definition flakyPenalty :: "candidate \<Rightarrow> candidate" where
  "flakyPenalty r =
     r\<lparr>score := jsRound (real_of_int (score r) * 0.5),
       reasons := reasons r @ [''flaky reviewer'']\<rparr>"

definition flakyPenaltyStep :: "string list \<Rightarrow> candidate \<Rightarrow> candidate" where
  "flakyPenaltyStep flaky r =
     (if toLowerCase (login r) \<in> set flaky then flakyPenalty r else r)"

definition flakyBlock :: "string list \<Rightarrow> candidate list \<Rightarrow> candidate list" where
  "flakyBlock flaky ranked =
     (if flaky \<noteq> [] then sortByScore (map (flakyPenaltyStep flaky) ranked) else ranked)"

definition finalRanking ::
  "matcher \<Rightarrow> string option \<Rightarrow> string list \<Rightarrow> config \<Rightarrow> apiData \<Rightarrow> candidate list" where
  "finalRanking mm prAuthor changedFiles cfg api =
     flakyBlock (flakyReviewersOf cfg api) (afterLoad mm prAuthor changedFiles cfg api)"

text \<open>
  \<^verbatim>\<open>
  const suggestions = ranked.slice(0, maxReviewers);
  const confidence = computeConfidence({ ranked, changedFiles: filesToCheck,
                                         codeownersRules, fileAuthors });
  \<close>
  The team coverage and the fields copied from the configuration are left out of the
  result.
\<close>

record analysis =
  suggestions :: "candidate list"
  confidence :: confidence

definition analyzeReviewers ::
  "matcher \<Rightarrow> string option \<Rightarrow> string list \<Rightarrow> config \<Rightarrow> apiData \<Rightarrow> analysis" where
  "analyzeReviewers mm prAuthor changedFiles cfg api =
     (let ranked = finalRanking mm prAuthor changedFiles cfg api
      in \<lparr>suggestions = take (maxReviewers cfg) ranked,
          confidence = computeConfidence mm ranked (filesToCheckOf cfg changedFiles)
                         (codeownersRulesOf cfg api) (fileAuthorsOf cfg api changedFiles)\<rparr>)"

section \<open>Example inputs\<close>

text \<open>A matcher that accepts a pattern equal to the path or to \<open>**/\<close> followed by it.\<close>

definition exampleMatcher :: matcher where
  "exampleMatcher filePath pat = (pat = filePath \<or> pat = ''**/'' @ filePath)"

definition exampleRules :: "rule list" where
  "exampleRules =
     [\<lparr>pattern = ''/a.js'', owners = [''alice''], teams = []\<rparr>,
      \<lparr>pattern = ''b.js'', owners = [''carol''], teams = []\<rparr>,
      \<lparr>pattern = ''a.js'', owners = [''dave''], teams = []\<rparr>]"

text \<open>
  One run: the author \<open>pat\<close> changes \<open>a.js\<close> and \<open>b.js\<close>; the commit listing of
  \<open>b.js\<close> fails; \<open>eve\<close> is excluded by the input and \<open>mallory\<close> by the
  repository; \<open>rita\<close> and the author are required reviewers; \<open>alice\<close> has one open
  review request and \<open>carol\<close> three, with no review of hers among the sampled closed
  pull requests.
\<close>

definition exampleCommit :: "string \<Rightarrow> commit" where
  "exampleCommit l = \<lparr>authorLogin = Some l, authorDateHour = Some 9\<rparr>"

definition exampleConfig :: config where
  "exampleConfig =
     \<lparr>maxReviewers = 3, maxFiles = 50, useCodeowners = True, useLatency = True,
      penalizeLoad = True, excludeReviewersInput = [''Eve''], crossRepoList = [''other''],
      requiredReviewers = [''rita'', ''pat''], preferredTimezoneOffset = Some 2,
      detectFlaky = True\<rparr>"

definition exampleApi :: apiData where
  "exampleApi =
     \<lparr>codeownersParsed = exampleRules,
      pathCommits = (\<lambda>p. if p = ''a.js''
                          then Some (map exampleCommit
                                 [''alice'', ''alice'', ''pat'', ''dependabot[bot]'', ''eve'', ''alice''])
                          else None),
      latencySince = 0,
      latencyPulls =
        Some [\<lparr>mergedAt = Some 100, closedAt = Some 100, createdAt = 10,
               reviewsResp = Some [\<lparr>userLogin = Some ''carol'', submittedAt = Some 7200010\<rparr>]\<rparr>],
      exclusionEntries = [''Mallory''],
      crossRepoCommits = (\<lambda>r p. Some [exampleCommit ''dave'']),
      timezoneCommits = (\<lambda>p. Some [exampleCommit ''alice'']),
      flakySince = 0,
      flakyClosedPulls = Some [],
      flakyOpenPulls =
        Some [\<lparr>requestedReviewers = [Some ''Carol'']\<rparr>,
              \<lparr>requestedReviewers = [Some ''carol'', None]\<rparr>,
              \<lparr>requestedReviewers = [Some ''carol'']\<rparr>],
      loadOpenPulls = Some [\<lparr>requestedReviewers = [Some ''alice'']\<rparr>]\<rparr>"

definition exampleFiles :: "string list" where
  "exampleFiles = [''a.js'', ''b.js'']"

text \<open>
  A run in which \<open>eve\<close> is excluded and \<open>rita\<close> is required, with every optional signal
  switched off; the parameter is the commit listing of each changed path.
\<close>

definition exclusionConfig :: config where
  "exclusionConfig =
     \<lparr>maxReviewers = 3, maxFiles = 50, useCodeowners = False, useLatency = False,
      penalizeLoad = False, excludeReviewersInput = [''eve''], crossRepoList = [],
      requiredReviewers = [''rita''], preferredTimezoneOffset = None, detectFlaky = False\<rparr>"

definition exclusionApi :: "commit list \<Rightarrow> apiData" where
  "exclusionApi commits =
     \<lparr>codeownersParsed = [], pathCommits = (\<lambda>p. Some commits), latencySince = 0,
      latencyPulls = None, exclusionEntries = [], crossRepoCommits = (\<lambda>r p. None),
      timezoneCommits = (\<lambda>p. None), flakySince = 0, flakyClosedPulls = None,
      flakyOpenPulls = None, loadOpenPulls = None\<rparr>"

text \<open>
  A run whose only signal is the \<open>required_reviewers\<close> input, given as the text that
  \<open>core.getInput\<close> returns: \<open>parseCommaSeparated(core.getInput("required_reviewers"))\<close>.
\<close>

definition requiredConfig :: "string \<Rightarrow> config" where
  "requiredConfig input =
     \<lparr>maxReviewers = 3, maxFiles = 50, useCodeowners = False, useLatency = False,
      penalizeLoad = False, excludeReviewersInput = [], crossRepoList = [],
      requiredReviewers = parseCommaSeparated input, preferredTimezoneOffset = None,
      detectFlaky = False\<rparr>"

section \<open>Notions used in the statements\<close>

text \<open>A login that \<open>add\<close> accepts: not bot-like and not the author of the pull request.\<close>

definition validLogin :: "string option \<Rightarrow> string \<Rightarrow> bool" where
  "validLogin prAuthor l = (\<not> isBotLogin l \<and> Some l \<noteq> prAuthor)"

text \<open>
  \<open>addsFrom prAuthor Q st st'\<close>: the state \<open>st'\<close> comes from \<open>st\<close> by calls of \<open>add\<close>
  whose points and reason satisfy \<open>Q\<close>.
\<close>

inductive addsFrom ::
  "string option \<Rightarrow> (int \<Rightarrow> string \<Rightarrow> bool) \<Rightarrow> rankState \<Rightarrow> rankState \<Rightarrow> bool"
  for prAuthor :: "string option" and Q :: "int \<Rightarrow> string \<Rightarrow> bool" where
  addsFrom_refl: "addsFrom prAuthor Q st st"
| addsFrom_step: "addsFrom prAuthor Q st st' \<Longrightarrow> Q pts reason \<Longrightarrow>
     addsFrom prAuthor Q st (add prAuthor l pts reason st')"

text \<open>
  The commit-history credit as the specification words it: on each path the first
  author entry weighs 3, the second 2 and the others up to the tenth 1, each times the
  commit-history weight.
\<close>

definition positionWeight :: "nat \<Rightarrow> int" where
  "positionWeight i = (if i = 0 then 3 else if i = 1 then 2 else 1)"

definition pathCredit :: "weights \<Rightarrow> string list \<Rightarrow> string \<Rightarrow> int" where
  "pathCredit w as l =
     (\<Sum>i\<leftarrow>[0..<min (length as) 10]. if as ! i = l then positionWeight i * commitHistory w else 0)"

definition commitCredit :: "weights \<Rightarrow> fileAuthorsEntry list \<Rightarrow> string \<Rightarrow> int" where
  "commitCredit w fas l = (\<Sum>fa\<leftarrow>fas. pathCredit w (authors fa) l)"

text \<open>
  The two counts of the flaky detection as the specification words them: the number of
  review requests on the open pull requests that name a login (letter case ignored), and
  the number of sampled closed pull requests (created within the look-back window, with a
  review listing) on which the login submitted any review.
\<close>

definition requestedCount :: "openPull list \<Rightarrow> string \<Rightarrow> nat" where
  "requestedCount openPulls l =
     (if l = [] then 0
      else length (filter (\<lambda>rv. case rv of None \<Rightarrow> False | Some x \<Rightarrow> toLowerCase x = l)
                          (concat (map requestedReviewers openPulls))))"

definition reviewedOn :: "closedPull \<Rightarrow> string \<Rightarrow> bool" where
  "reviewedOn pr l =
     (case reviewsResp pr of
        None \<Rightarrow> False
      | Some rs \<Rightarrow>
          (\<exists>r \<in> set rs. case userLogin r of None \<Rightarrow> False | Some x \<Rightarrow> x \<noteq> [] \<and> toLowerCase x = l))"

definition reviewedCount :: "int \<Rightarrow> closedPull list \<Rightarrow> string \<Rightarrow> nat" where
  "reviewedCount since pulls l =
     length (filter (\<lambda>pr. \<not> createdAt pr < since \<and> reviewedOn pr l) pulls)"

text \<open>
  The standard median: the middle value of the sorted list, the average of the two
  middle values when the length is even.
\<close>

definition standardMedian :: "real list \<Rightarrow> real" where
  "standardMedian arr =
     (if odd (length arr) then sort arr ! (length arr div 2)
      else (sort arr ! (length arr div 2 - 1) + sort arr ! (length arr div 2)) / 2)"

text \<open>
  The sampled first-review latencies of a login as the specification words them: on each
  sampled closed pull request (merged or closed, created within the look-back window,
  with a review listing) the earliest submission time among the login's reviews, in hours
  since the creation of the pull request, when it is not negative; bot-like logins have
  none.
\<close>

definition reviewTimes :: "review list \<Rightarrow> string \<Rightarrow> int list" where
  "reviewTimes rs l =
     concat (map (\<lambda>r. if userLogin r = Some l
                       then (case submittedAt r of None \<Rightarrow> [] | Some t \<Rightarrow> [t])
                       else []) rs)"

definition pullLatency :: "int \<Rightarrow> closedPull \<Rightarrow> string \<Rightarrow> real list" where
  "pullLatency since pr l =
     (if (mergedAt pr = None \<and> closedAt pr = None) \<or> createdAt pr < since \<or> isBotLogin l
      then []
      else (case reviewsResp pr of
              None \<Rightarrow> []
            | Some rs \<Rightarrow>
                if reviewTimes rs l = [] then []
                else (let t = Min (set (reviewTimes rs l))
                      in if t < createdAt pr then []
                         else [real_of_int (t - createdAt pr) / (1000 * 60 * 60)])))"

definition sampledLatencies :: "int \<Rightarrow> closedPull list \<Rightarrow> string \<Rightarrow> real list" where
  "sampledLatencies since pulls l = concat (map (\<lambda>pr. pullLatency since pr l) pulls)"

text \<open>
  Two notions for the proofs about the latency maps: the earliest of an optional time and
  a list of times, and an optional list of hours extended by further hours.
\<close>

definition earliestWith :: "int option \<Rightarrow> int list \<Rightarrow> int option" where
  "earliestWith e ts =
     (case e of None \<Rightarrow> (if ts = [] then None else Some (Min (set ts)))
              | Some x \<Rightarrow> Some (Min (set (x # ts))))"

definition appendHours :: "real list option \<Rightarrow> real list \<Rightarrow> real list option" where
  "appendHours m hs =
     (if hs = [] then m else Some ((case m of None \<Rightarrow> [] | Some a \<Rightarrow> a) @ hs))"

text \<open>
  The load of a login as the specification words it: the number of requested-reviewer
  entries with that login on the open pull requests.
\<close>

definition openReviewCount :: "openPull list \<Rightarrow> string \<Rightarrow> nat" where
  "openReviewCount pulls l =
     (if l = [] then 0
      else length (filter (\<lambda>rv. rv = Some l) (concat (map requestedReviewers pulls))))"

text \<open>
  The score of a login when the required-reviewer step of a run starts: what the commit,
  CODEOWNERS, latency, cross-repository and timezone signals gave it, 0 if nothing.
\<close>

definition signalScore ::
  "matcher \<Rightarrow> string option \<Rightarrow> string list \<Rightarrow> config \<Rightarrow> apiData \<Rightarrow> string \<Rightarrow> int" where
  "signalScore mm prAuthor changedFiles cfg api l =
     getScore (fst (signalState mm (fileAuthorsOf cfg api changedFiles) prAuthor
                      (codeownersRulesOf cfg api) (filesToCheckOf cfg changedFiles)
                      (latencyMapOf cfg api) (weightsOf cfg)
                      (crossRepoExpertiseOf cfg api changedFiles)
                      (timezoneDataOf cfg api (fileAuthorsOf cfg api changedFiles)))) l"

section \<open>The accumulators of the ranking\<close>

lemma getScore_update: "getScore (AList.update k v m) k' = (if k' = k then v else getScore m k')"
  by (simp add: getScore_def update_conv')

lemma getReasons_update: "getReasons (AList.update k v m) k' = (if k' = k then v else getReasons m k')"
  by (simp add: getReasons_def update_conv')

lemma getCount_update: "getCount (AList.update k v m) k' = (if k' = k then v else getCount m k')"
  by (simp add: getCount_def update_conv')

lemma set_setAdd: "set (setAdd x xs) = insert x (set xs)"
  by (auto simp: setAdd_def)

lemma distinct_setAdd: "distinct xs \<Longrightarrow> distinct (setAdd x xs)"
  by (auto simp: setAdd_def)

lemma add_invalid: "\<not> validLogin a l \<Longrightarrow> add a l p r st = st"
  by (auto simp: add_def validLogin_def)

lemma isBotLogin_Nil: "isBotLogin []"
  by (simp add: isBotLogin_def)

lemma validLogin_nonempty: "validLogin a l \<Longrightarrow> l \<noteq> []"
  by (auto simp: validLogin_def isBotLogin_Nil)

lemma add_keys:
  "fst ` set (fst (add a l p r st)) = fst ` set (fst st) \<union> (if validLogin a l then {l} else {})"
  by (auto simp: add_def validLogin_def Let_def dom_update isBotLogin_Nil)

lemma getScore_add:
  "getScore (fst (add a l p r st)) k =
     getScore (fst st) k + (if k = l \<and> validLogin a l then p else 0)"
  by (auto simp: add_def validLogin_def Let_def getScore_update isBotLogin_Nil)

lemma getReasons_None: "map_of m l = None \<Longrightarrow> getReasons m l = []"
  by (simp add: getReasons_def)

lemma getReasons_add:
  "set (getReasons (snd (add a l p r st)) k) =
     set (getReasons (snd st) k) \<union> (if k = l \<and> validLogin a l \<and> r \<noteq> [] then {r} else {})"
proof (cases "validLogin a l")
  case False
  then show ?thesis by (simp add: add_invalid)
next
  case True
  then have v: "l \<noteq> []" "\<not> isBotLogin l" "Some l \<noteq> a"
    by (auto simp: validLogin_def isBotLogin_Nil)
  show ?thesis
  proof (cases "map_of (snd st) l = None")
    case True
    then show ?thesis using v \<open>validLogin a l\<close>
      by (auto simp: add_def Let_def getReasons_update set_setAdd getReasons_None)
  next
    case False
    then show ?thesis using v \<open>validLogin a l\<close>
      by (auto simp: add_def Let_def getReasons_update set_setAdd)
  qed
qed

lemma add_distinct:
  "distinct (map fst (fst st)) \<Longrightarrow> distinct (map fst (fst (add a l p r st)))"
  by (auto simp: add_def Let_def distinct_update)

lemma set_update_subset: "set (AList.update k v m) \<subseteq> insert (k, v) (set m)"
  by (induction m) auto

lemma add_positive:
  assumes "\<forall>e \<in> set (fst st). 0 < snd e" "0 < p"
  shows "\<forall>e \<in> set (fst (add a l p r st)). 0 < snd e"
proof (cases "validLogin a l")
  case False
  then show ?thesis using assms by (simp add: add_invalid)
next
  case True
  have g: "0 \<le> getScore (fst st) l"
    using assms(1) by (auto simp: getScore_def split: option.splits dest!: map_of_SomeD)
  have eq: "fst (add a l p r st) = AList.update l (getScore (fst st) l + p) (fst st)"
    using True by (auto simp: add_def validLogin_def Let_def isBotLogin_Nil)
  show ?thesis
  proof
    fix e assume "e \<in> set (fst (add a l p r st))"
    then have "e = (l, getScore (fst st) l + p) \<or> e \<in> set (fst st)"
      unfolding eq using set_update_subset by fastforce
    then show "0 < snd e" using assms g by auto
  qed
qed

lemma addsFrom_trans:
  "addsFrom a Q st1 st2 \<Longrightarrow> addsFrom a Q st0 st1 \<Longrightarrow> addsFrom a Q st0 st2"
  by (induction rule: addsFrom.induct) (auto intro: addsFrom.intros)

lemma addsFrom_fold:
  assumes "\<And>x st. x \<in> set xs \<Longrightarrow> addsFrom a Q st (f x st)"
  shows "addsFrom a Q st (fold f xs st)"
  using assms
proof (induction xs arbitrary: st)
  case Nil
  show ?case by (simp add: addsFrom_refl)
next
  case (Cons x xs)
  have "addsFrom a Q (f x st) (fold f xs (f x st))"
    by (rule Cons.IH) (simp add: Cons.prems)
  moreover have "addsFrom a Q st (f x st)" by (simp add: Cons.prems)
  ultimately show ?case by (simp add: addsFrom_trans)
qed

lemma addsFrom_add: "Q p r \<Longrightarrow> addsFrom a Q st (add a l p r st)"
  by (rule addsFrom_step [OF addsFrom_refl])

lemma commitBlock_adds:
  assumes "\<And>i. i < 10 \<Longrightarrow> Q (max 1 (3 - int i) * commitHistory w) ''recent commits''"
  shows "addsFrom a Q st (commitBlock a w fas st)"
  unfolding commitBlock_def commitCreditLoop_def Let_def
  by (intro addsFrom_fold addsFrom_add assms) auto

lemma ownerStep_adds:
  assumes "Q (codeowners w) ''CODEOWNERS''"
  shows "addsFrom a Q (snd acc) (snd (ownerStep a w f own acc))"
  by (auto simp: ownerStep_def Let_def intro: addsFrom_refl addsFrom_add assms)

lemma addsFrom_fold_snd:
  assumes "\<And>x acc. x \<in> set xs \<Longrightarrow> addsFrom a Q (snd acc) (snd (f x acc))"
  shows "addsFrom a Q (snd acc) (snd (fold f xs acc))"
  using assms
proof (induction xs arbitrary: acc)
  case Nil
  show ?case by (simp add: addsFrom_refl)
next
  case (Cons x xs)
  have "addsFrom a Q (snd (f x acc)) (snd (fold f xs (f x acc)))"
    by (rule Cons.IH) (simp add: Cons.prems)
  moreover have "addsFrom a Q (snd acc) (snd (f x acc))" by (simp add: Cons.prems)
  ultimately show ?case by (simp add: addsFrom_trans)
qed

lemma codeownersBlock_adds:
  assumes "0 < codeowners w \<Longrightarrow> Q (codeowners w) ''CODEOWNERS''"
  shows "addsFrom a Q st (codeownersBlock mm a w rs files st)"
proof (cases "0 < codeowners w \<and> rs \<noteq> []")
  case False
  then show ?thesis by (auto simp: codeownersBlock_def addsFrom_refl)
next
  case True
  have q: "Q (codeowners w) ''CODEOWNERS''"
    using True by (simp add: assms)
  have inner: "addsFrom a Q (snd acc) (snd (fold (ownerStep a w f) os acc))" for f os acc
    by (rule addsFrom_fold_snd) (rule ownerStep_adds [where Q = Q and w = w, OF q])
  have "addsFrom a Q (snd ([] :: string list, st))
          (snd (fold (\<lambda>f acc. fold (ownerStep a w f) (ownersForFile mm rs f) acc) files ([], st)))"
    by (rule addsFrom_fold_snd) (rule inner)
  then show ?thesis using True by (simp add: codeownersBlock_def)
qed

lemma latencyBlock_adds:
  assumes "\<And>p r. 0 < p \<Longrightarrow> r \<noteq> ''flaky reviewer'' \<Longrightarrow> Q p r"
  shows "addsFrom a Q st (latencyBlock a w lm st)"
  unfolding latencyBlock_def latencyStep_def Let_def
  by (auto intro!: addsFrom_fold addsFrom_add addsFrom_refl assms)

lemma crossRepoBlock_adds:
  assumes "\<And>e. e \<in> set cross \<Longrightarrow> Q (int (min (snd e) 5)) ''cross-repo expertise''"
  shows "addsFrom a Q st (crossRepoBlock a cross st)"
  unfolding crossRepoBlock_def crossRepoStep_def
  by (auto intro!: addsFrom_fold addsFrom_add addsFrom_refl assms)

lemma timezoneBlock_adds:
  assumes "\<And>p. 0 < p \<Longrightarrow> Q p ''timezone match''"
  shows "addsFrom a Q st (timezoneBlock a tz st)"
  unfolding timezoneBlock_def timezoneStep_def Let_def
  by (auto intro!: addsFrom_fold addsFrom_add addsFrom_refl assms split: option.splits)

lemma requiredStep_adds:
  assumes "Q 10 ''required reviewer''" "Q 5 ''required reviewer''"
  shows "addsFrom a Q st (requiredStep a l st)"
  unfolding requiredStep_def Let_def
  by (auto intro!: addsFrom_add addsFrom_refl assms)

lemma requiredBlock_adds:
  assumes "Q 10 ''required reviewer''" "Q 5 ''required reviewer''"
  shows "addsFrom a Q st (requiredBlock a req st)"
  unfolding requiredBlock_def
  by (auto intro!: addsFrom_fold requiredStep_adds addsFrom_refl assms)

section \<open>Invariants of the scoring state and of the pipeline\<close>

lemma addsFrom_weaken:
  "addsFrom a Q st st' \<Longrightarrow> (\<And>p r. Q p r \<Longrightarrow> Q' p r) \<Longrightarrow> addsFrom a Q' st st'"
  by (induction rule: addsFrom.induct) (auto intro: addsFrom.intros)

lemma addsFrom_keys:
  "addsFrom a Q st st' \<Longrightarrow> fst ` set (fst st') \<subseteq> fst ` set (fst st) \<union> {l. validLogin a l}"
proof (induction rule: addsFrom.induct)
  case (addsFrom_refl st)
  show ?case by simp
next
  case (addsFrom_step st st' pts reason l)
  then show ?case unfolding add_keys by (auto split: if_splits)
qed

lemma addsFrom_keys_mono:
  "addsFrom a Q st st' \<Longrightarrow> fst ` set (fst st) \<subseteq> fst ` set (fst st')"
proof (induction rule: addsFrom.induct)
  case (addsFrom_refl st)
  show ?case by simp
next
  case (addsFrom_step st st' pts reason l)
  then show ?case unfolding add_keys by auto
qed

lemma addsFrom_distinct:
  "addsFrom a Q st st' \<Longrightarrow> distinct (map fst (fst st)) \<Longrightarrow> distinct (map fst (fst st'))"
  by (induction rule: addsFrom.induct) (auto intro: add_distinct)

lemma addsFrom_positive:
  "addsFrom a (\<lambda>p r. 0 < p \<and> r \<noteq> x) st st' \<Longrightarrow> \<forall>e \<in> set (fst st). 0 < snd e \<Longrightarrow>
   \<forall>e \<in> set (fst st'). 0 < snd e"
proof (induction rule: addsFrom.induct)
  case (addsFrom_refl st)
  then show ?case by simp
next
  case (addsFrom_step st st' pts reason l)
  then show ?case by (intro add_positive) auto
qed

lemma addsFrom_reasons:
  "addsFrom a (\<lambda>p r. 0 < p \<and> r \<noteq> x) st st' \<Longrightarrow> x \<notin> set (getReasons (snd st) k) \<Longrightarrow>
   x \<notin> set (getReasons (snd st') k)"
  by (induction rule: addsFrom.induct) (auto simp: getReasons_add split: if_splits)

lemma addsFrom_reasons_mono:
  "addsFrom a Q st st' \<Longrightarrow> set (getReasons (snd st) k) \<subseteq> set (getReasons (snd st') k)"
  by (induction rule: addsFrom.induct) (auto simp: getReasons_add)

lemma fold_invariant:
  assumes "\<And>x s. x \<in> set xs \<Longrightarrow> P s \<Longrightarrow> P (f x s)" "P s"
  shows "P (fold f xs s)"
  using assms by (induction xs arbitrary: s) auto

lemma signalState_adds:
  assumes "\<And>i. i < 10 \<Longrightarrow> Q (max 1 (3 - int i) * commitHistory w) ''recent commits''"
    and "0 < codeowners w \<Longrightarrow> Q (codeowners w) ''CODEOWNERS''"
    and "\<And>p r. 0 < p \<Longrightarrow> r \<noteq> ''flaky reviewer'' \<Longrightarrow> Q p r"
    and "\<And>e. e \<in> set cross \<Longrightarrow> Q (int (min (snd e) 5)) ''cross-repo expertise''"
  shows "addsFrom a Q ([], []) (signalState mm fas a rs files lm w cross tz)"
  unfolding signalState_def
  by (intro addsFrom_trans [OF timezoneBlock_adds] addsFrom_trans [OF crossRepoBlock_adds]
        addsFrom_trans [OF latencyBlock_adds] addsFrom_trans [OF codeownersBlock_adds]
        commitBlock_adds assms) auto

lemma scoring_adds_any:
  "addsFrom a (\<lambda>p r. True) ([], [])
     (requiredBlock a req (signalState mm fas a rs files lm w cross tz))"
  by (intro addsFrom_trans [OF requiredBlock_adds] signalState_adds) auto

lemma scoring_adds_positive:
  assumes "0 < commitHistory w" "\<forall>e \<in> set cross. 0 < snd e"
  shows "addsFrom a (\<lambda>p r. 0 < p \<and> r \<noteq> ''flaky reviewer'') ([], [])
     (requiredBlock a req (signalState mm fas a rs files lm w cross tz))"
proof -
  have c: "0 < max 1 (3 - int i) * commitHistory w" for i
    using assms(1) by (intro mult_pos_pos) auto
  show ?thesis
    by (intro addsFrom_trans [OF requiredBlock_adds] signalState_adds) (use assms c in auto)
qed

lemma set_rankedOf:
  "set (rankedOf st) =
     (\<lambda>e. \<lparr>login = fst e, score = snd e, reasons = getReasons (snd st) (fst e),
            openReviews = None\<rparr>) ` set (fst st)"
  by (simp add: rankedOf_def)

lemma login_rankedOf: "login ` set (rankedOf st) = fst ` set (fst st)"
  by (simp add: set_rankedOf image_image)

lemma map_login_rankedOf: "map login (rankedOf st) = map fst (sort_key (\<lambda>e. - snd e) (fst st))"
  by (simp add: rankedOf_def comp_def)

lemma distinct_map_sort_key:
  "distinct (map g (sort_key f xs)) = distinct (map g xs)"
  by (simp add: distinct_map)

lemma distinct_rankedOf:
  "distinct (map fst (fst st)) \<Longrightarrow> distinct (map login (rankedOf st))"
  by (simp add: map_login_rankedOf distinct_map_sort_key)

lemma rankedOf_member:
  assumes "r \<in> set (rankedOf st)"
  shows "(login r, score r) \<in> set (fst st)" "reasons r = getReasons (snd st) (login r)"
  using assms by (auto simp: set_rankedOf)

lemma login_excludeFilter:
  "login ` set (excludeFilter ex rs) = {l \<in> login ` set rs. toLowerCase l \<notin> set ex}"
  by (auto simp: excludeFilter_def)

lemma login_loadStep [simp]: "login (loadStep c r) = login r"
  by (simp add: loadStep_def Let_def)

lemma reasons_loadStep [simp]: "reasons (loadStep c r) = reasons r"
  by (simp add: loadStep_def Let_def)

lemma login_flakyPenaltyStep [simp]: "login (flakyPenaltyStep fl r) = login r"
  by (simp add: flakyPenaltyStep_def flakyPenalty_def)

lemma set_sortByScore [simp]: "set (sortByScore rs) = set rs"
  by (simp add: sortByScore_def)

lemma login_afterLoad:
  "login ` set (afterLoad mm a files cfg api) = login ` set (afterExclusion mm a files cfg api)"
  by (auto simp: afterLoad_def Let_def image_image split: option.splits)

lemma login_flakyBlock: "login ` set (flakyBlock fl rs) = login ` set rs"
  by (auto simp: flakyBlock_def image_image)

lemma login_finalRanking:
  "login ` set (finalRanking mm a files cfg api) =
     {l \<in> login ` set (baseRanking mm a files cfg api). toLowerCase l \<notin> set (excludedOf cfg api)}"
  by (simp add: finalRanking_def login_flakyBlock login_afterLoad afterExclusion_def
        login_excludeFilter)

lemma login_baseRanking:
  "login ` set (baseRanking mm a files cfg api) \<subseteq> {l. validLogin a l}"
proof -
  have "fst ` set (fst (requiredBlock a req (signalState mm fas a rs fs lm w cross tz)))
          \<subseteq> {l. validLogin a l}" for req fas rs fs lm w cross tz
    using addsFrom_keys [OF scoring_adds_any [of a req mm fas rs fs lm w cross tz]] by simp
  then show ?thesis
    unfolding baseRanking_def Let_def rankCandidates_def login_rankedOf .
qed

lemma bump_positive:
  assumes "\<forall>e \<in> set m. 0 < snd e"
  shows "\<forall>e \<in> set (bump k m). 0 < snd e"
proof
  fix e assume "e \<in> set (bump k m)"
  then have "e = (k, getCount m k + 1) \<or> e \<in> set m"
    unfolding bump_def using set_update_subset [of k "getCount m k + 1" m] by blast
  then show "0 < snd e" using assms by auto
qed

lemma expertiseStep_positive:
  "\<forall>e \<in> set m. 0 < snd e \<Longrightarrow> \<forall>e \<in> set (expertiseStep c m). 0 < snd e"
  unfolding expertiseStep_def
  by (cases "authorLogin c") (simp_all add: bump_positive)

lemma fetchCrossRepoExpertise_positive:
  "\<forall>e \<in> set (fetchCrossRepoExpertise lc repos paths). 0 < snd e"
proof -
  let ?P = "\<lambda>m :: (string \<times> nat) list. \<forall>e \<in> set m. 0 < snd e"
  have resp: "?P (fold expertiseStep cs m)" if "?P m" for cs m
    by (rule fold_invariant [where P = ?P]) (simp_all add: expertiseStep_positive that)
  have perFile: "?P (case lc r f of None \<Rightarrow> m | Some cs \<Rightarrow> fold expertiseStep cs m)"
    if "?P m" for r f m
  proof (cases "lc r f")
    case None
    then show ?thesis using that by simp
  next
    case (Some cs)
    then show ?thesis using resp [OF that, of cs] by simp
  qed
  have repo: "?P (fold (\<lambda>f m. case lc r f of None \<Rightarrow> m | Some cs \<Rightarrow> fold expertiseStep cs m)
                    fs m)" if "?P m" for r fs m
    by (rule fold_invariant [where P = ?P]) (simp_all add: perFile that)
  show ?thesis
    unfolding fetchCrossRepoExpertise_def
    by (rule fold_invariant [where P = ?P]) (simp_all add: repo)
qed

lemma crossRepoExpertiseOf_positive:
  "\<forall>e \<in> set (crossRepoExpertiseOf cfg api files). 0 < snd e"
  using fetchCrossRepoExpertise_positive [of "crossRepoCommits api" "crossRepoList cfg" files]
  by (auto simp: crossRepoExpertiseOf_def)

lemma rankCandidates_positive:
  assumes "0 < commitHistory w" "\<forall>e \<in> set cross. 0 < snd e"
  shows "\<forall>r \<in> set (rankCandidates mm fas a rs files lm w cross tz req). 0 < score r"
proof
  fix r assume "r \<in> set (rankCandidates mm fas a rs files lm w cross tz req)"
  then have "(login r, score r) \<in> set (fst (requiredBlock a req (signalState mm fas a rs files lm w cross tz)))"
    unfolding rankCandidates_def by (rule rankedOf_member)
  moreover have "\<forall>e \<in> set (fst (requiredBlock a req (signalState mm fas a rs files lm w cross tz))). 0 < snd e"
    by (rule addsFrom_positive [OF scoring_adds_positive [OF assms]]) simp
  ultimately show "0 < score r" by fastforce
qed

section \<open>Lower-casing\<close>

lemma lowerChar_idem: "lowerChar (lowerChar c) = lowerChar c"
proof -
  define n where "n = (of_char c :: nat)"
  show ?thesis
  proof (cases "(65 \<le> n \<and> n \<le> 90) \<or> (192 \<le> n \<and> n \<le> 222 \<and> n \<noteq> 215)")
    case False
    then have "lowerChar c = c" by (auto simp: lowerChar_def n_def Let_def)
    then show ?thesis by simp
  next
    case True
    then have l: "lowerChar c = char_of (n + 32)" by (auto simp: lowerChar_def n_def Let_def)
    have "(of_char (char_of (n + 32)) :: nat) = (n + 32) mod 256" by simp
    also have "\<dots> = n + 32" using True by auto
    finally have o: "(of_char (char_of (n + 32)) :: nat) = n + 32" .
    have "lowerChar (char_of (n + 32)) = char_of (n + 32)"
      unfolding lowerChar_def o Let_def using True by auto
    then show ?thesis by (simp add: l)
  qed
qed

lemma toLowerCase_idem: "toLowerCase (toLowerCase s) = toLowerCase s"
  by (simp add: toLowerCase_def lowerChar_idem)

text \<open>Counting maps.\<close>

lemma getCount_bump: "getCount (bump k m) l = (if l = k then getCount m k + 1 else getCount m l)"
  by (simp add: bump_def getCount_update)

lemma getCount_fold_bump: "getCount (fold bump xs m) l = getCount m l + count_list xs l"
  by (induction xs arbitrary: m) (auto simp: getCount_bump)

lemma distinct_bump: "distinct (map fst m) \<Longrightarrow> distinct (map fst (bump k m))"
  by (simp add: bump_def distinct_update)

lemma count_list_distinct: "distinct xs \<Longrightarrow> count_list xs x = (if x \<in> set xs then 1 else 0)"
  by (induction xs) auto

lemma toLowerCase_Nil_iff: "toLowerCase x = [] \<longleftrightarrow> x = []"
  by (simp add: toLowerCase_def)

lemma fold_fold_concat: "fold (\<lambda>x s. fold f (g x) s) xs s = fold f (concat (map g xs)) s"
  by (induction xs arbitrary: s) auto

section \<open>The example run, evaluated\<close>

lemma example_baseRanking:
  "map (\<lambda>r. (login r, score r))
       (baseRanking exampleMatcher (Some ''pat'') exampleFiles exampleConfig exampleApi)
   = [(''carol'', 10), (''rita'', 10), (''alice'', 9), (''dave'', 6), (''eve'', 1)]"
  by code_simp

lemma example_finalRanking:
  "finalRanking exampleMatcher (Some ''pat'') exampleFiles exampleConfig exampleApi =
     [\<lparr>login = ''rita'', score = 10, reasons = [''required reviewer''], openReviews = Some 0\<rparr>,
      \<lparr>login = ''alice'', score = 7, reasons = [''recent commits'', ''timezone match''],
        openReviews = Some 1\<rparr>,
      \<lparr>login = ''dave'', score = 6, reasons = [''CODEOWNERS'', ''cross-repo expertise''],
        openReviews = Some 0\<rparr>,
      \<lparr>login = ''carol'', score = 5,
        reasons = [''CODEOWNERS'', ''fast reviewer (~2h median)'', ''flaky reviewer''],
        openReviews = Some 0\<rparr>]"
  by code_simp

lemma example_baseRanking_logins:
  "map login (baseRanking exampleMatcher (Some ''pat'') exampleFiles exampleConfig exampleApi)
     = [''carol'', ''rita'', ''alice'', ''dave'', ''eve'']"
  by code_simp

lemma example_excluded: "excludedOf exampleConfig exampleApi = [''eve'', ''mallory'']"
  by code_simp

section \<open>Rounding to a double\<close>

lemma roundEven_bounds: "\<lfloor>x\<rfloor> \<le> roundEven x" "roundEven x \<le> \<lfloor>x\<rfloor> + 1"
  by (simp_all add: roundEven_def Let_def)

lemma roundEven_of_int [simp]: "roundEven (of_int k) = k"
  by (simp add: roundEven_def)

lemma roundEven_mono:
  assumes "x \<le> y"
  shows "roundEven x \<le> roundEven y"
proof (cases "\<lfloor>x\<rfloor> = \<lfloor>y\<rfloor>")
  case True
  then show ?thesis using assms by (auto simp: roundEven_def Let_def)
next
  case False
  then have "\<lfloor>x\<rfloor> < \<lfloor>y\<rfloor>" using floor_mono [OF assms] by simp
  then have "roundEven x \<le> \<lfloor>y\<rfloor>" using roundEven_bounds(2) [of x] by simp
  then show ?thesis using roundEven_bounds(1) [of y] by simp
qed

lemma roundEven_error: "\<bar>of_int (roundEven x) - x\<bar> \<le> 1 / 2"
proof -
  define d where "d = x - of_int \<lfloor>x\<rfloor>"
  have d: "0 \<le> d" "d < 1" unfolding d_def by linarith+
  have x: "x = of_int \<lfloor>x\<rfloor> + d" by (simp add: d_def)
  consider "d < 1 / 2" | "1 / 2 < d" | "d = 1 / 2" by linarith
  then show ?thesis
  proof cases
    case 1
    then have "roundEven x = \<lfloor>x\<rfloor>" by (simp add: roundEven_def Let_def d_def)
    then have "of_int (roundEven x) - x = - d" by (simp add: d_def)
    then show ?thesis using d 1 by simp
  next
    case 2
    then have "roundEven x = \<lfloor>x\<rfloor> + 1" by (simp add: roundEven_def Let_def d_def)
    then have "of_int (roundEven x) - x = 1 - d" by (simp add: d_def)
    then show ?thesis using d 2 by simp
  next
    case 3
    then have "roundEven x = \<lfloor>x\<rfloor> \<or> roundEven x = \<lfloor>x\<rfloor> + 1"
      by (simp add: roundEven_def Let_def d_def)
    then have "of_int (roundEven x) - x = - d \<or> of_int (roundEven x) - x = 1 - d"
      by (auto simp: d_def)
    then show ?thesis using 3 by auto
  qed
qed

lemma exponent_bounds:
  assumes "0 < x"
  shows "2 powi exponent x \<le> x" and "x < 2 powi (exponent x + 1)"
proof -
  have "2 powi exponent x \<le> x \<and> x < 2 powi (exponent x + 1)"
  proof (cases "1 \<le> x")
    case True
    define k where "k = nat \<lfloor>x\<rfloor>"
    define f where "f = floorlog 2 k"
    have k: "0 < k" "of_nat k \<le> x" "x < of_nat k + 1"
      using True by (simp_all add: k_def) linarith+
    have b: "2 ^ (f - 1) \<le> k" "k < 2 ^ f"
      using floorlog_bounds [of k 2] k(1) by (simp_all add: f_def)
    have f: "0 < f" using b(2) k(1) by (cases f) auto
    have e: "exponent x = int f - 1" using True by (simp add: exponent_def k_def f_def)
    have e1: "(2::rat) powi (int f - 1) = 2 ^ (f - 1)"
      using f by (simp add: power_int_def nat_diff_distrib')
    have e2: "(2::rat) powi (int f - 1 + 1) = 2 ^ f"
      by simp
    have "(2::rat) ^ (f - 1) \<le> of_nat k"
      using b(1) by (metis of_nat_le_iff of_nat_numeral of_nat_power)
    moreover have "of_nat k + 1 \<le> (2::rat) ^ f"
    proof -
      have "k + 1 \<le> 2 ^ f" using b(2) by simp
      then have "(of_nat (k + 1) :: rat) \<le> of_nat (2 ^ f)" by (simp only: of_nat_le_iff)
      then show ?thesis by simp
    qed
    ultimately show ?thesis using k(2,3) unfolding e e1 e2 by linarith
  next
    case False
    then have x1: "x < 1" by simp
    define y where "y = \<lceil>1 / x\<rceil>"
    define k where "k = nat (y - 1)"
    define f where "f = floorlog 2 k"
    have inv: "1 < 1 / x" using assms x1 by simp
    have y: "1 / x \<le> of_int y" "of_int y - 1 < 1 / x"
      unfolding y_def by linarith+
    have y2: "2 \<le> y" using inv y(1) by linarith
    have k: "0 < k" "int k = y - 1" using y2 by (simp_all add: k_def)
    have b: "2 ^ (f - 1) \<le> k" "k < 2 ^ f"
      using floorlog_bounds [of k 2] k(1) by (simp_all add: f_def)
    have f: "0 < f" using b(2) k(1) by (cases f) auto
    have e: "exponent x = - int f" using False by (simp add: exponent_def y_def k_def f_def)
    have kr: "(of_nat k :: rat) = of_int y - 1"
      using k(2) by (metis of_int_1 of_int_diff of_int_of_nat_eq)
    have lo: "(2::rat) ^ (f - 1) \<le> of_nat k"
      using b(1) by (metis of_nat_le_iff of_nat_numeral of_nat_power)
    have hi: "of_nat k + 1 \<le> (2::rat) ^ f"
    proof -
      have "k + 1 \<le> 2 ^ f" using b(2) by simp
      then have "(of_nat (k + 1) :: rat) \<le> of_nat (2 ^ f)" by (simp only: of_nat_le_iff)
      then show ?thesis by simp
    qed
    have a1: "1 / x \<le> 2 ^ f" using y(1) hi kr by linarith
    have a2: "(2::rat) ^ (f - 1) < 1 / x" using y(2) lo kr by linarith
    have p1: "(2::rat) powi (- int f) = 1 / 2 ^ f"
      by (simp add: power_int_minus_divide)
    have p2: "(2::rat) powi (- int f + 1) = 1 / 2 ^ (f - 1)"
    proof -
      have "- int f + 1 = - int (f - 1)" using f by simp
      then show ?thesis by (simp only: power_int_minus_divide power_int_of_nat)
    qed
    have "1 / 2 ^ f \<le> x"
      using a1 assms by (simp add: field_simps)
    moreover have "x < 1 / 2 ^ (f - 1)"
      using a2 assms by (simp add: field_simps)
    ultimately show ?thesis unfolding e p1 p2 by simp
  qed
  then show "2 powi exponent x \<le> x" and "x < 2 powi (exponent x + 1)" by simp_all
qed

lemma exponent_mono:
  assumes "0 < x" "x \<le> y"
  shows "exponent x \<le> exponent y"
proof (rule ccontr)
  assume "\<not> exponent x \<le> exponent y"
  then have "exponent y + 1 \<le> exponent x" by simp
  then have "(2::rat) powi (exponent y + 1) \<le> 2 powi exponent x"
    by (intro power_int_increasing) simp_all
  also have "\<dots> \<le> x" by (rule exponent_bounds(1) [OF assms(1)])
  also have "\<dots> \<le> y" by (rule assms(2))
  finally show False using exponent_bounds(2) [of y] assms by simp
qed

lemma toDouble_pos_eq:
  "0 < x \<Longrightarrow> toDouble x = of_int (roundEven (x / 2 powi (exponent x - 52))) * 2 powi (exponent x - 52)"
  by (simp add: toDouble_def Let_def)

lemma toDouble_range:
  assumes "0 < x"
  shows "2 powi exponent x \<le> toDouble x" and "toDouble x \<le> 2 powi (exponent x + 1)"
proof -
  define e where "e = exponent x"
  define u :: rat where "u = 2 powi (e - 52)"
  have u: "0 < u" by (simp add: u_def)
  have p52: "2 powi e = 2 ^ 52 * u"
    unfolding u_def by (simp add: power_int_diff)
  have p53: "2 powi (e + 1) = 2 ^ 53 * u"
    unfolding u_def by (simp add: power_int_diff power_int_add)
  have "2 ^ 52 * u \<le> x" "x < 2 ^ 53 * u"
    using exponent_bounds [OF assms] by (simp_all add: e_def [symmetric] p52 p53)
  then have q: "2 ^ 52 \<le> x / u" "x / u \<le> 2 ^ 53"
    using u by (simp_all add: field_simps)
  have "roundEven (of_int (2 ^ 52)) \<le> roundEven (x / u)"
    by (rule roundEven_mono) (use q(1) in simp)
  then have r1: "2 ^ 52 \<le> roundEven (x / u)" by (simp only: roundEven_of_int)
  have "roundEven (x / u) \<le> roundEven (of_int (2 ^ 53))"
    by (rule roundEven_mono) (use q(2) in simp)
  then have r2: "roundEven (x / u) \<le> 2 ^ 53" by (simp only: roundEven_of_int)
  have t: "toDouble x = of_int (roundEven (x / u)) * u"
    using assms by (simp add: toDouble_pos_eq e_def u_def)
  have "(2::rat) ^ 52 \<le> of_int (roundEven (x / u))"
    using r1 by (metis of_int_le_iff of_int_numeral of_int_power)
  then show "2 powi exponent x \<le> toDouble x"
    unfolding t e_def [symmetric] p52 using u by (simp add: mult_right_mono)
  have "of_int (roundEven (x / u)) \<le> (2::rat) ^ 53"
    using r2 by (metis of_int_le_iff of_int_numeral of_int_power)
  then show "toDouble x \<le> 2 powi (exponent x + 1)"
    unfolding t e_def [symmetric] p53 using u by (simp add: mult_right_mono)
qed

lemma toDouble_pos: "0 < x \<Longrightarrow> 0 < toDouble x"
  using toDouble_range(1) [of x] zero_less_power_int [of "2::rat" "exponent x"]
  by linarith

lemma toDouble_mono:
  assumes "0 \<le> x" "x \<le> y"
  shows "toDouble x \<le> toDouble y"
proof (cases "x = 0")
  case True
  show ?thesis
  proof (cases "y = 0")
    case True
    then show ?thesis using \<open>x = 0\<close> by simp
  next
    case False
    then have "0 < toDouble y" using assms \<open>x = 0\<close> by (intro toDouble_pos) simp
    then show ?thesis using \<open>x = 0\<close> by (simp add: toDouble_def)
  qed
next
  case False
  then have x: "0 < x" and y: "0 < y" using assms by simp_all
  have le: "exponent x \<le> exponent y" by (rule exponent_mono [OF x assms(2)])
  show ?thesis
  proof (cases "exponent x = exponent y")
    case True
    define u :: rat where "u = 2 powi (exponent y - 52)"
    have u: "0 < u" by (simp add: u_def)
    have "x / u \<le> y / u" using assms(2) u by (simp add: divide_right_mono)
    then have "roundEven (x / u) \<le> roundEven (y / u)" by (rule roundEven_mono)
    then have "(of_int (roundEven (x / u)) :: rat) \<le> of_int (roundEven (y / u))"
      by (simp only: of_int_le_iff)
    then have "of_int (roundEven (x / u)) * u \<le> of_int (roundEven (y / u)) * u"
      using u by (simp add: mult_right_mono)
    then show ?thesis
      using x y True by (simp add: toDouble_pos_eq u_def)
  next
    case False
    then have "exponent x + 1 \<le> exponent y" using le by simp
    then have "(2::rat) powi (exponent x + 1) \<le> 2 powi exponent y"
      by (intro power_int_increasing) simp_all
    then show ?thesis
      using toDouble_range(2) [OF x] toDouble_range(1) [OF y] by linarith
  qed
qed

lemma toDouble_error:
  assumes "0 \<le> x"
  shows "\<bar>toDouble x - x\<bar> \<le> x / 2 ^ 53"
proof (cases "x = 0")
  case True
  then show ?thesis by (simp add: toDouble_def)
next
  case False
  then have x: "0 < x" using assms by simp
  define u :: rat where "u = 2 powi (exponent x - 52)"
  have u: "0 < u" by (simp add: u_def)
  have p52: "2 powi exponent x = 2 ^ 52 * u"
    unfolding u_def by (simp add: power_int_diff)
  have "\<bar>of_int (roundEven (x / u)) - x / u\<bar> \<le> 1 / 2" by (rule roundEven_error)
  then have "\<bar>of_int (roundEven (x / u)) - x / u\<bar> * u \<le> 1 / 2 * u"
    using u by (intro mult_right_mono) simp_all
  moreover have "\<bar>of_int (roundEven (x / u)) - x / u\<bar> * u = \<bar>toDouble x - x\<bar>"
  proof -
    have "\<bar>of_int (roundEven (x / u)) - x / u\<bar> * u = \<bar>(of_int (roundEven (x / u)) - x / u) * u\<bar>"
      using u by (simp add: abs_mult)
    also have "(of_int (roundEven (x / u)) - x / u) * u = toDouble x - x"
      using u x by (simp add: toDouble_pos_eq u_def algebra_simps)
    finally show ?thesis .
  qed
  moreover have "1 / 2 * u \<le> x / 2 ^ 53"
    using exponent_bounds(1) [OF x] unfolding p52 by simp
  ultimately show ?thesis by linarith
qed

lemma roundEven_nearest: "\<bar>of_int (roundEven z) - z\<bar> \<le> \<bar>of_int k - z\<bar>"
proof -
  define f where "f = \<lfloor>z\<rfloor>"
  have r: "roundEven z = f \<or> roundEven z = f + 1"
    using roundEven_bounds [of z] by (auto simp: f_def)
  have e: "\<bar>of_int (roundEven z) - z\<bar> \<le> 1 / 2"
    by (rule roundEven_error)
  have z: "of_int f \<le> z" "z < of_int f + 1"
    unfolding f_def by linarith+
  have k: "(of_int k :: rat) \<le> of_int f \<or> (of_int f :: rat) + 1 \<le> of_int k"
  proof (cases "k \<le> f")
    case True
    then show ?thesis by simp
  next
    case False
    then have "f + 1 \<le> k" by simp
    then have "(of_int (f + 1) :: rat) \<le> of_int k"
      by (simp only: of_int_le_iff)
    then show ?thesis by simp
  qed
  from r show ?thesis
  proof
    assume a: "roundEven z = f"
    have "\<bar>of_int f - z\<bar> \<le> 1 / 2"
      using e by (simp add: a)
    then have "\<bar>of_int f - z\<bar> \<le> \<bar>of_int k - z\<bar>"
      using z k by linarith
    then show ?thesis
      by (simp add: a)
  next
    assume a: "roundEven z = f + 1"
    have "\<bar>of_int f + 1 - z\<bar> \<le> 1 / 2"
      using e by (simp add: a)
    then have "\<bar>of_int f + 1 - z\<bar> \<le> \<bar>of_int k - z\<bar>"
      using z k by linarith
    then show ?thesis
      by (simp add: a)
  qed
qed

lemma toDouble_nearest:
  assumes "0 < x" "0 < k" "k < 2 ^ 53"
  shows "\<bar>toDouble x - x\<bar> \<le> \<bar>of_int k * 2 powi j - x\<bar>"
proof -
  define e where "e = exponent x"
  define u :: rat where "u = 2 powi (e - 52)"
  define y :: rat where "y = of_int k * 2 powi j"
  have u: "0 < u" by (simp add: u_def)
  have td: "toDouble x = of_int (roundEven (x / u)) * u"
    using assms(1) by (simp add: toDouble_pos_eq e_def u_def)
  have pe: "(2::rat) powi e = 2 ^ 52 * u"
    by (simp add: u_def power_int_diff)
  have xe: "2 powi e \<le> x"
    using exponent_bounds(1) [OF assms(1)] by (simp add: e_def)
  have scale: "\<bar>toDouble x - x\<bar> = u * \<bar>of_int (roundEven (x / u)) - x / u\<bar>"
  proof -
    have "toDouble x - x = u * (of_int (roundEven (x / u)) - x / u)"
      using u by (simp add: td field_simps)
    then show ?thesis using u by (simp add: abs_mult)
  qed
  have near: "\<bar>toDouble x - x\<bar> \<le> \<bar>of_int m * u - x\<bar>" for m :: int
  proof -
    have "of_int m * u - x = u * (of_int m - x / u)"
      using u by (simp add: field_simps)
    then have "\<bar>of_int m * u - x\<bar> = u * \<bar>of_int m - x / u\<bar>"
      using u by (simp add: abs_mult)
    then show ?thesis
      unfolding scale using roundEven_nearest [of "x / u" m] u by simp
  qed
  show ?thesis
  proof (cases "y < 2 powi e")
    case True
    have "\<bar>toDouble x - x\<bar> \<le> \<bar>of_int (2 ^ 52) * u - x\<bar>"
      by (rule near)
    also have "\<dots> = x - 2 powi e"
      using xe by (simp add: pe)
    also have "\<dots> \<le> \<bar>y - x\<bar>"
      using True by simp
    finally show ?thesis by (simp add: y_def)
  next
    case False
    then have ye: "2 powi e \<le> y" by simp
    have "(2::rat) powi (e - 53) < 2 powi j"
    proof -
      have "2 powi e \<le> of_int k * (2::rat) powi j"
        using ye by (simp add: y_def)
      also have "\<dots> < 2 ^ 53 * 2 powi j"
      proof -
        have "(of_int k :: rat) < 2 ^ 53"
          using assms(3) by (metis of_int_less_iff of_int_numeral of_int_power)
        then show ?thesis by (simp add: mult_strict_right_mono)
      qed
      finally have "(2::rat) powi e / 2 ^ 53 < 2 powi j"
        by (simp add: field_simps)
      then show ?thesis
        by (simp add: power_int_diff)
    qed
    then have ej: "e - 53 < j"
      using power_int_increasing [of j "e - 53" "2::rat"] by (cases "e - 53 < j") simp_all
    define i where "i = nat (j - (e - 52))"
    have i: "j = e - 52 + int i"
      using ej by (simp add: i_def)
    have yk: "of_int k * 2 powi j = of_int (k * 2 ^ i) * u"
      by (simp add: u_def i power_int_add)
    show ?thesis
      unfolding yk by (rule near)
  qed
qed

lemma toDouble_representable:
  assumes "0 < x"
  shows "\<exists>m j. 2 ^ 52 \<le> m \<and> m < 2 ^ 53 \<and> toDouble x = of_int m * 2 powi j"
proof -
  define e where "e = exponent x"
  define u :: rat where "u = 2 powi (e - 52)"
  define m where "m = roundEven (x / u)"
  have u: "0 < u" by (simp add: u_def)
  have td: "toDouble x = of_int m * u"
    using assms(1) by (simp add: toDouble_pos_eq e_def u_def m_def)
  have pe: "(2::rat) powi e = 2 ^ 52 * u" "(2::rat) powi (e + 1) = 2 ^ 53 * u"
    by (simp_all add: u_def power_int_diff power_int_add)
  have "2 ^ 52 * u \<le> of_int m * u" "of_int m * u \<le> 2 ^ 53 * u"
    using toDouble_range [OF assms] unfolding td e_def [symmetric] pe by simp_all
  then have "(2 ^ 52 :: rat) \<le> of_int m" "(of_int m :: rat) \<le> 2 ^ 53"
    using u by simp_all
  then have m: "2 ^ 52 \<le> m" "m \<le> 2 ^ 53"
    by (metis of_int_le_iff of_int_numeral of_int_power)+
  show ?thesis
  proof (cases "m = 2 ^ 53")
    case True
    have "toDouble x = of_int (2 ^ 52) * 2 powi (e - 51)"
      by (simp add: td True u_def power_int_diff)
    moreover have "(2::int) ^ 52 \<le> 2 ^ 52" "(2::int) ^ 52 < 2 ^ 53"
      by simp_all
    ultimately show ?thesis
      by blast
  next
    case False
    then have "m < 2 ^ 53"
      using m(2) by simp
    then show ?thesis
      using m(1) td unfolding u_def by blast
  qed
qed

section \<open>Ownership resolution\<close>

lemma ownersLoop_last:
  "ownersLoop mm rs f acc =
     (if matchingRules mm rs f = [] then acc else owners (last (matchingRules mm rs f)))"
  by (induction rs arbitrary: acc) (simp_all add: matchingRules_def Let_def)

text \<open>
  C1. Ownership resolution returns the owners of the last rule, in file order, whose
  normalized pattern matches the path, and no owners when no rule matches. So a path
  matched by exactly one rule gets that rule's owners, and a path matched by exactly two
  rules gets the owners of the later one.
\<close>

theorem ownersForFile_last_match:
  "ownersForFile mm rs f =
     (if matchingRules mm rs f = [] then [] else owners (last (matchingRules mm rs f)))
   \<and> (\<forall>r. matchingRules mm rs f = [r] \<longrightarrow> ownersForFile mm rs f = owners r)
   \<and> (\<forall>r1 r2. matchingRules mm rs f = [r1, r2] \<longrightarrow> ownersForFile mm rs f = owners r2)
   \<and> (matchingRules mm rs f = [] \<longrightarrow> ownersForFile mm rs f = [])"
proof -
  have g: "ownersForFile mm rs f =
     (if matchingRules mm rs f = [] then [] else owners (last (matchingRules mm rs f)))"
    by (cases rs) (simp_all add: ownersForFile_def ownersLoop_last matchingRules_def)
  then show ?thesis by simp
qed

theorem ownersForFile_last_match_witness:
  "matchingRules exampleMatcher exampleRules ''a.js'' = [exampleRules ! 0, exampleRules ! 2]
   \<and> ownersForFile exampleMatcher exampleRules ''a.js'' = [''dave'']
   \<and> matchingRules exampleMatcher exampleRules ''b.js'' = [exampleRules ! 1]
   \<and> ownersForFile exampleMatcher exampleRules ''b.js'' = [''carol'']
   \<and> matchingRules exampleMatcher exampleRules ''c.js'' = []
   \<and> ownersForFile exampleMatcher exampleRules ''c.js'' = []"
proof -
  have m2: "matchingRules exampleMatcher exampleRules ''a.js'' = [exampleRules ! 0, exampleRules ! 2]"
    by (simp add: matchingRules_def exampleMatcher_def exampleRules_def normalizeCodeownersPattern_def)
  have m1: "matchingRules exampleMatcher exampleRules ''b.js'' = [exampleRules ! 1]"
    by (simp add: matchingRules_def exampleMatcher_def exampleRules_def normalizeCodeownersPattern_def)
  have m0: "matchingRules exampleMatcher exampleRules ''c.js'' = []"
    by (simp add: matchingRules_def exampleMatcher_def exampleRules_def normalizeCodeownersPattern_def)
  have o2: "owners (exampleRules ! 2) = [''dave'']" "owners (exampleRules ! 1) = [''carol'']"
    by (simp_all add: exampleRules_def)
  from ownersForFile_last_match [of exampleMatcher exampleRules "''a.js''"]
       ownersForFile_last_match [of exampleMatcher exampleRules "''b.js''"]
       ownersForFile_last_match [of exampleMatcher exampleRules "''c.js''"]
       m2 m1 m0 o2
  show ?thesis by metis
qed

section \<open>The author and bot-like logins\<close>

lemma scoring_invalid_absent:
  assumes "\<not> validLogin a l"
  shows "map_of (fst (requiredBlock a req (signalState mm fas a rs fs lm w cross tz))) l = None"
proof -
  have "fst ` set (fst (requiredBlock a req (signalState mm fas a rs fs lm w cross tz)))
          \<subseteq> {l. validLogin a l}"
    using addsFrom_keys [OF scoring_adds_any [of a req mm fas rs fs lm w cross tz]] by simp
  then have "l \<notin> fst ` set (fst (requiredBlock a req (signalState mm fas a rs fs lm w cross tz)))"
    using assms by blast
  then show ?thesis by (simp add: map_of_eq_None_iff)
qed

lemma finalRanking_valid:
  assumes "r \<in> set (finalRanking mm a files cfg api)"
  shows "validLogin a (login r)"
proof -
  have "login r \<in> login ` set (finalRanking mm a files cfg api)"
    using assms by (rule imageI)
  then have "login r \<in> login ` set (baseRanking mm a files cfg api)"
    unfolding login_finalRanking by simp
  then show ?thesis using login_baseRanking by blast
qed

text \<open>
  What the code does for the author and for bot-like logins (the empty login, a login
  ending in \<open>[bot]\<close>, one containing \<open>bot\<close> in any letter case, or \<open>github-actions\<close> in
  any letter case): \<open>add\<close> leaves the state as it is for a login that is bot-like or
  equal, character by character, to the login of the author; the scoring state has no
  entry for it, and it is absent from the ranking of \<open>rankCandidates\<close>, from the final
  ranking and from the suggestions.
\<close>

lemma exact_logins_never_ranked:
  "(isBotLogin l \<longleftrightarrow>
      l = [] \<or> suffix ''[bot]'' l \<or> sublist ''bot'' (toLowerCase l)
      \<or> toLowerCase l = ''github-actions'')
   \<and> (Some l = prAuthor \<or> isBotLogin l \<longrightarrow>
        add prAuthor l pts reason st = st
        \<and> map_of (fst (requiredBlock prAuthor req
                         (signalState mm fas prAuthor rs files lm w cross tz))) l = None)
   \<and> (\<forall>r \<in> set (rankCandidates mm fas prAuthor rs files lm w cross tz req).
         Some (login r) \<noteq> prAuthor \<and> \<not> isBotLogin (login r))
   \<and> (\<forall>r \<in> set (finalRanking mm prAuthor changedFiles cfg api).
         Some (login r) \<noteq> prAuthor \<and> \<not> isBotLogin (login r))
   \<and> (\<forall>r \<in> set (suggestions (analyzeReviewers mm prAuthor changedFiles cfg api)).
         Some (login r) \<noteq> prAuthor \<and> \<not> isBotLogin (login r))"
proof (intro conjI impI ballI)
  show "isBotLogin l \<longleftrightarrow>
      l = [] \<or> suffix ''[bot]'' l \<or> sublist ''bot'' (toLowerCase l)
      \<or> toLowerCase l = ''github-actions''"
    by (simp add: isBotLogin_def Let_def)
next
  assume "Some l = prAuthor \<or> isBotLogin l"
  then have inv: "\<not> validLogin prAuthor l" by (auto simp: validLogin_def)
  show "add prAuthor l pts reason st = st"
    using inv by (rule add_invalid)
  show "map_of (fst (requiredBlock prAuthor req
                       (signalState mm fas prAuthor rs files lm w cross tz))) l = None"
    using inv by (rule scoring_invalid_absent)
next
  fix r assume "r \<in> set (rankCandidates mm fas prAuthor rs files lm w cross tz req)"
  then have "login r \<in> fst ` set (fst (requiredBlock prAuthor req
                                          (signalState mm fas prAuthor rs files lm w cross tz)))"
    unfolding rankCandidates_def login_rankedOf [symmetric] by (rule imageI)
  then have "validLogin prAuthor (login r)"
    using addsFrom_keys [OF scoring_adds_any [of prAuthor req mm fas rs files lm w cross tz]]
    by auto
  then show "Some (login r) \<noteq> prAuthor" "\<not> isBotLogin (login r)"
    by (simp_all add: validLogin_def)
next
  fix r assume "r \<in> set (finalRanking mm prAuthor changedFiles cfg api)"
  then have "validLogin prAuthor (login r)" by (rule finalRanking_valid)
  then show "Some (login r) \<noteq> prAuthor" "\<not> isBotLogin (login r)"
    by (simp_all add: validLogin_def)
next
  fix r assume "r \<in> set (suggestions (analyzeReviewers mm prAuthor changedFiles cfg api))"
  then have "r \<in> set (finalRanking mm prAuthor changedFiles cfg api)"
    by (auto simp: analyzeReviewers_def Let_def dest: in_set_takeD)
  then have "validLogin prAuthor (login r)" by (rule finalRanking_valid)
  then show "Some (login r) \<noteq> prAuthor" "\<not> isBotLogin (login r)"
    by (simp_all add: validLogin_def)
qed

text \<open>
  C2. The author of the pull request and every bot-like login are never scored and never
  ranked, whatever the signals. The code does not keep this for the author: it compares
  the author with \<open>===\<close>, while \<open>parseCommaSeparated\<close> lower-cases the
  \<open>required_reviewers\<close> input. Logins are not case-sensitive, and the exclusion and
  flaky steps of the same run compare lower-cased logins. So when the author \<open>Pat\<close> is
  listed as a required reviewer, the run suggests the author, as \<open>pat\<close>, with 10 points
  and the reason "required reviewer".
\<close>

theorem author_suggested_as_required_reviewer:
  "parseCommaSeparated ''Pat'' = [''pat'']
   \<and> toLowerCase ''Pat'' = ''pat''
   \<and> requiredReviewers (requiredConfig ''Pat'') = [''pat'']
   \<and> map (\<lambda>r. (login r, score r, reasons r))
        (finalRanking exampleMatcher (Some ''Pat'') [''a.js''] (requiredConfig ''Pat'')
           (exclusionApi []))
      = [(''pat'', 10, [''required reviewer''])]
   \<and> map (\<lambda>r. (login r, score r, reasons r))
        (suggestions (analyzeReviewers exampleMatcher (Some ''Pat'') [''a.js'']
                        (requiredConfig ''Pat'') (exclusionApi [])))
      = [(''pat'', 10, [''required reviewer''])]"
  by code_simp

text \<open>With the author written as the input is, \<open>pat\<close>, nobody is suggested.\<close>

lemma author_in_same_letter_case:
  "suggestions (analyzeReviewers exampleMatcher (Some ''pat'') [''a.js'']
                  (requiredConfig ''Pat'') (exclusionApi [])) = []"
  by code_simp

section \<open>Load penalty\<close>

lemma applyLoadPenalty_factor_pos:
  assumes "0 \<le> n"
  shows "0 < toDouble (1 / toDouble (1 + toDouble (n / 3)))"
proof -
  have "toDouble 0 \<le> toDouble (n / 3)" by (rule toDouble_mono) (use assms in simp_all)
  then have "0 \<le> toDouble (n / 3)" by (simp add: toDouble_def)
  then have "0 < toDouble (1 + toDouble (n / 3))" by (intro toDouble_pos) simp
  then show ?thesis by (intro toDouble_pos) simp
qed

lemma applyLoadPenalty_factor_mono:
  assumes "0 \<le> n" "n \<le> m"
  shows "toDouble (1 / toDouble (1 + toDouble (m / 3))) \<le> toDouble (1 / toDouble (1 + toDouble (n / 3)))"
proof -
  have n0: "0 \<le> toDouble (n / 3)"
    using toDouble_mono [of 0 "n / 3"] assms by (simp add: toDouble_def)
  have "toDouble (n / 3) \<le> toDouble (m / 3)"
    by (rule toDouble_mono) (use assms in simp_all)
  then have a: "toDouble (1 + toDouble (n / 3)) \<le> toDouble (1 + toDouble (m / 3))"
    by (intro toDouble_mono) (use n0 in simp_all)
  have p: "0 < toDouble (1 + toDouble (n / 3))"
    using n0 by (intro toDouble_pos) simp
  have "1 / toDouble (1 + toDouble (m / 3)) \<le> 1 / toDouble (1 + toDouble (n / 3))"
    using a p by (simp add: frac_le)
  moreover have "0 \<le> 1 / toDouble (1 + toDouble (m / 3))"
    using a p by simp
  ultimately show ?thesis by (intro toDouble_mono)
qed

lemma applyLoadPenalty_pos:
  assumes "0 < s" "0 \<le> n"
  shows "0 < applyLoadPenalty s n"
  unfolding applyLoadPenalty_def
  using applyLoadPenalty_factor_pos [OF assms(2)] assms(1) by (intro toDouble_pos) simp

lemma applyLoadPenalty_nonneg:
  assumes "0 \<le> s" "0 \<le> n"
  shows "0 \<le> applyLoadPenalty s n"
proof (cases "s = 0")
  case True
  then show ?thesis by (simp add: applyLoadPenalty_def toDouble_def)
next
  case False
  then show ?thesis using applyLoadPenalty_pos [of s n] assms by simp
qed

lemma applyLoadPenalty_mono:
  assumes "0 \<le> s" "0 \<le> n" "n \<le> m"
  shows "applyLoadPenalty s m \<le> applyLoadPenalty s n"
proof -
  have "0 \<le> m" using assms by simp
  have "s * toDouble (1 / toDouble (1 + toDouble (m / 3)))
          \<le> s * toDouble (1 / toDouble (1 + toDouble (n / 3)))"
    using applyLoadPenalty_factor_mono [OF assms(2,3)] assms(1) by (intro mult_left_mono)
  moreover have "0 \<le> s * toDouble (1 / toDouble (1 + toDouble (m / 3)))"
    using applyLoadPenalty_factor_pos [OF \<open>0 \<le> m\<close>] assms(1) by simp
  ultimately show ?thesis unfolding applyLoadPenalty_def by (intro toDouble_mono)
qed

lemma loadPenalized_mono:
  assumes "0 \<le> s" "n \<le> m"
  shows "loadPenalized s m \<le> loadPenalized s n"
proof -
  have "applyLoadPenalty (of_int s) (of_nat m) \<le> applyLoadPenalty (of_int s) (of_nat n)"
    by (rule applyLoadPenalty_mono) (use assms in simp_all)
  then have "real_of_rat (applyLoadPenalty (of_int s) (of_nat m))
             \<le> real_of_rat (applyLoadPenalty (of_int s) (of_nat n))"
    by (simp only: of_rat_less_eq)
  then show ?thesis unfolding loadPenalized_def jsRound_def by (intro floor_mono) simp
qed

lemma loadPenalized_nonneg:
  assumes "0 \<le> s"
  shows "0 \<le> loadPenalized s n"
proof -
  have "0 \<le> applyLoadPenalty (of_int s) (of_nat n)"
    by (rule applyLoadPenalty_nonneg) (use assms in simp_all)
  then have "0 \<le> real_of_rat (applyLoadPenalty (of_int s) (of_nat n))"
    by (simp only: zero_le_of_rat_iff)
  then show ?thesis unfolding loadPenalized_def jsRound_def by simp
qed

lemma example_loadPenalized:
  "loadPenalized 40 10 = 9" "loadPenalized 40 0 = 40" "loadPenalized 1 3 = 1"
  "loadPenalized 4 5 = 1" "loadPenalized 12 5 = 4" "loadPenalized 49 291 = 0"
  by code_simp+

lemma getCount_countReviewerStep:
  "getCount (fold countReviewerStep rvs m) l =
     getCount m l + (if l = [] then 0 else length (filter (\<lambda>rv. rv = Some l) rvs))"
  by (induction rvs arbitrary: m)
     (auto simp: countReviewerStep_def getCount_bump split: option.splits)

lemma getCount_computeOpenReviewCounts:
  "getCount (computeOpenReviewCounts pulls) l = openReviewCount pulls l"
proof -
  have "getCount [] l = 0"
    by (simp add: getCount_def)
  then show ?thesis
    by (simp add: computeOpenReviewCounts_def fold_fold_concat getCount_countReviewerStep
          openReviewCount_def)
qed

lemma afterLoad_penalized:
  assumes "penalizeLoad cfg" "loadOpenPulls api = Some pulls"
    and "r \<in> set (afterExclusion mm a files cfg api)"
  shows "\<exists>r' \<in> set (afterLoad mm a files cfg api).
           login r' = login r \<and> reasons r' = reasons r
           \<and> openReviews r' = Some (openReviewCount pulls (login r))
           \<and> score r' = loadPenalized (score r) (openReviewCount pulls (login r))"
proof -
  have "loadStep (computeOpenReviewCounts pulls) r \<in> set (afterLoad mm a files cfg api)"
    using assms by (simp add: afterLoad_def Let_def)
  then show ?thesis
    by (intro bexI [of _ "loadStep (computeOpenReviewCounts pulls) r"])
       (simp_all add: loadStep_def Let_def getCount_computeOpenReviewCounts)
qed

lemma example_afterExclusion:
  "afterExclusion exampleMatcher (Some ''pat'') exampleFiles exampleConfig exampleApi =
     [\<lparr>login = ''carol'', score = 10, reasons = [''CODEOWNERS'', ''fast reviewer (~2h median)''],
        openReviews = None\<rparr>,
      \<lparr>login = ''rita'', score = 10, reasons = [''required reviewer''], openReviews = None\<rparr>,
      \<lparr>login = ''alice'', score = 9, reasons = [''recent commits'', ''timezone match''],
        openReviews = None\<rparr>,
      \<lparr>login = ''dave'', score = 6, reasons = [''CODEOWNERS'', ''cross-repo expertise''],
        openReviews = None\<rparr>]"
  by code_simp

text \<open>
  C3, as amended. With the load penalty switched on and the open pull requests listed,
  every candidate gets the score \<open>Math.round(s \<times> (1 / (1 + n / 3)))\<close> of its base score
  \<open>s\<close> and its number \<open>n\<close> of open review requests, where each of the four operations
  is rounded to the nearest double (a number with 53 significant bits, none of which is
  nearer to the exact result, and within the relative error \<open>2\<^sup>-\<^sup>5\<^sup>3\<close> of it) and
  \<open>Math.round\<close> rounds a half up. For a base score \<open>s \<ge> 0\<close> this score does not
  increase when \<open>n\<close> grows, and it is never negative. The value before the rounding to
  an integer is strictly positive for \<open>s > 0\<close>; the rounded score is not always positive.
\<close>

theorem loadPenalized_properties:
  "loadPenalized s n =
     jsRound (real_of_rat
       (toDouble (of_int s * toDouble (1 / toDouble (1 + toDouble (of_nat n / 3))))))
   \<and> (penalizeLoad cfg \<and> loadOpenPulls api = Some pulls \<longrightarrow>
        (\<forall>r \<in> set (afterExclusion mm prAuthor changedFiles cfg api).
           \<exists>r' \<in> set (afterLoad mm prAuthor changedFiles cfg api).
             login r' = login r \<and> reasons r' = reasons r
             \<and> openReviews r' = Some (openReviewCount pulls (login r))
             \<and> score r' = loadPenalized (score r) (openReviewCount pulls (login r))))
   \<and> (0 \<le> x \<longrightarrow> \<bar>toDouble x - x\<bar> \<le> x / 2 ^ 53)
   \<and> (0 < x \<longrightarrow>
        (\<exists>k j. 2 ^ 52 \<le> k \<and> k < 2 ^ 53 \<and> toDouble x = of_int k * 2 powi j)
        \<and> (\<forall>k j. 0 < k \<and> k < 2 ^ 53 \<longrightarrow>
              \<bar>toDouble x - x\<bar> \<le> \<bar>of_int k * 2 powi j - x\<bar>))
   \<and> (0 \<le> s \<longrightarrow> n \<le> m \<longrightarrow> loadPenalized s m \<le> loadPenalized s n)
   \<and> (0 < s \<longrightarrow> 0 < applyLoadPenalty (of_int s) (of_nat n))
   \<and> (0 \<le> s \<longrightarrow> 0 \<le> loadPenalized s n)"
proof (intro conjI impI ballI allI)
  show "loadPenalized s n =
     jsRound (real_of_rat
       (toDouble (of_int s * toDouble (1 / toDouble (1 + toDouble (of_nat n / 3))))))"
    by (simp add: loadPenalized_def applyLoadPenalty_def)
  show "\<exists>r' \<in> set (afterLoad mm prAuthor changedFiles cfg api).
             login r' = login r \<and> reasons r' = reasons r
             \<and> openReviews r' = Some (openReviewCount pulls (login r))
             \<and> score r' = loadPenalized (score r) (openReviewCount pulls (login r))"
    if "penalizeLoad cfg \<and> loadOpenPulls api = Some pulls"
      and "r \<in> set (afterExclusion mm prAuthor changedFiles cfg api)" for r
    using that by (intro afterLoad_penalized) simp_all
  show "\<bar>toDouble x - x\<bar> \<le> x / 2 ^ 53" if "0 \<le> x"
    using that by (rule toDouble_error)
  show "\<exists>k j. 2 ^ 52 \<le> k \<and> k < 2 ^ 53 \<and> toDouble x = of_int k * 2 powi j" if "0 < x"
    using that by (rule toDouble_representable)
  show "\<bar>toDouble x - x\<bar> \<le> \<bar>of_int k * 2 powi j - x\<bar>"
    if "0 < x" "0 < k \<and> k < 2 ^ 53" for k j
    using that by (intro toDouble_nearest) simp_all
  show "loadPenalized s m \<le> loadPenalized s n" if "0 \<le> s" "n \<le> m"
    using that by (rule loadPenalized_mono)
  show "0 < applyLoadPenalty (of_int s) (of_nat n)" if "0 < s"
    by (rule applyLoadPenalty_pos) (use that in simp_all)
  show "0 \<le> loadPenalized s n" if "0 \<le> s"
    using that by (rule loadPenalized_nonneg)
qed

theorem loadPenalized_properties_witness:
  "(0::int) \<le> 40 \<and> (0::nat) \<le> 10 \<and> loadPenalized 40 10 = 9 \<and> loadPenalized 40 0 = 40
   \<and> loadPenalized 40 10 \<le> loadPenalized 40 0
   \<and> 0 < applyLoadPenalty 40 10
   \<and> \<bar>toDouble (5 / 3) - 5 / 3\<bar> \<le> (5 / 3) / 2 ^ 53
   \<and> toDouble (5 / 3) = 7505999378950827 / 4503599627370496
   \<and> \<bar>toDouble (5 / 3) - 5 / 3\<bar> \<le> \<bar>of_int 7505999378950826 * 2 powi (- 52) - 5 / 3\<bar>
   \<and> loadPenalized 4 5 = 1 \<and> loadPenalized 12 5 = 4 \<and> loadPenalized 49 291 = 0
   \<and> penalizeLoad exampleConfig
   \<and> loadOpenPulls exampleApi = Some [\<lparr>requestedReviewers = [Some ''alice'']\<rparr>]
   \<and> openReviewCount [\<lparr>requestedReviewers = [Some ''alice'']\<rparr>] ''alice'' = 1
   \<and> loadPenalized 9 1 = 7
   \<and> (\<exists>r' \<in> set (afterLoad exampleMatcher (Some ''pat'') exampleFiles exampleConfig exampleApi).
         login r' = ''alice'' \<and> openReviews r' = Some 1 \<and> score r' = 7)"
proof -
  let ?alice = "\<lparr>login = ''alice'', score = 9, reasons = [''recent commits'', ''timezone match''],
        openReviews = None\<rparr>"
  let ?pulls = "[\<lparr>requestedReviewers = [Some ''alice'']\<rparr>]"
  note T = loadPenalized_properties [of 40 0 exampleConfig exampleApi ?pulls exampleMatcher
      "Some ''pat''" exampleFiles "5 / 3" 10]
  have c: "penalizeLoad exampleConfig" "loadOpenPulls exampleApi = Some ?pulls"
    by (simp_all add: exampleConfig_def exampleApi_def)
  have o: "openReviewCount ?pulls ''alice'' = 1"
    by (simp add: openReviewCount_def)
  have a: "?alice \<in> set (afterExclusion exampleMatcher (Some ''pat'') exampleFiles exampleConfig exampleApi)"
    by (simp add: example_afterExclusion)
  have e: "loadPenalized 40 10 = 9" "loadPenalized 40 0 = 40" "loadPenalized 9 1 = 7"
    by code_simp+
  have m: "loadPenalized 40 10 \<le> loadPenalized 40 0"
    using T by simp
  have p: "0 < applyLoadPenalty 40 10"
    using loadPenalized_properties [of 40 10 exampleConfig exampleApi ?pulls exampleMatcher
      "Some ''pat''" exampleFiles "5 / 3" 10] by simp
  have d: "\<bar>toDouble (5 / 3) - 5 / 3\<bar> \<le> (5 / 3) / 2 ^ 53"
    using T [THEN conjunct2, THEN conjunct2, THEN conjunct1] by simp
  have "\<forall>k j. 0 < k \<and> k < 2 ^ 53 \<longrightarrow>
          \<bar>toDouble (5 / 3) - 5 / 3\<bar> \<le> \<bar>of_int k * 2 powi j - 5 / 3\<bar>"
    using T [THEN conjunct2, THEN conjunct2, THEN conjunct2, THEN conjunct1] by simp
  from this [rule_format, of 7505999378950826 "- 52"]
  have nr: "\<bar>toDouble (5 / 3) - 5 / 3\<bar> \<le> \<bar>of_int 7505999378950826 * 2 powi (- 52) - 5 / 3\<bar>"
    by simp
  have v: "toDouble (5 / 3) = 7505999378950827 / 4503599627370496"
    "loadPenalized 4 5 = 1" "loadPenalized 12 5 = 4" "loadPenalized 49 291 = 0"
    by code_simp+
  have "\<exists>r' \<in> set (afterLoad exampleMatcher (Some ''pat'') exampleFiles exampleConfig exampleApi).
          login r' = login ?alice \<and> reasons r' = reasons ?alice
          \<and> openReviews r' = Some (openReviewCount ?pulls (login ?alice))
          \<and> score r' = loadPenalized (score ?alice) (openReviewCount ?pulls (login ?alice))"
    using T [THEN conjunct2, THEN conjunct1, rule_format, OF conjI [OF c] a] .
  then have r: "\<exists>r' \<in> set (afterLoad exampleMatcher (Some ''pat'') exampleFiles exampleConfig exampleApi).
         login r' = ''alice'' \<and> openReviews r' = Some 1 \<and> score r' = 7"
    using o e(3) by auto
  from c o e m p d nr v r show ?thesis by simp
qed

text \<open>
  A candidate with base score 1 and four open reviews: the double
  \<open>1 \<times> (1 / (1 + 4 / 3))\<close> is just below \<open>3/7\<close> and rounds to 0, so the load penalty
  does zero a positive score.
\<close>

theorem loadPenalized_zero_counterexample:
  "(0::int) < 1 \<and> \<not> 0 < loadPenalized 1 4"
  by code_simp

text \<open>
  Rounding in doubles differs from rounding the exact quotient \<open>3 s / (n + 3)\<close>:
  \<open>4 \<times> (1 / (1 + 5 / 3))\<close> is \<open>1.4999999999999998\<close> as a double, not \<open>3/2\<close>.
\<close>

lemma loadPenalized_double_rounding:
  "applyLoadPenalty 4 5 = 6755399441055743 / 4503599627370496"
  "applyLoadPenalty 49 291 = 9007199254740991 / 18014398509481984"
  by code_simp+

section \<open>Flaky reviewers\<close>

lemma getCount_requestedStep:
  "getCount (fold requestedStep rvs m) l =
     getCount m l + (if l = [] then 0
                     else length (filter (\<lambda>rv. case rv of None \<Rightarrow> False | Some x \<Rightarrow> toLowerCase x = l) rvs))"
  by (induction rvs arbitrary: m)
     (auto simp: requestedStep_def Let_def getCount_bump toLowerCase_Nil_iff split: option.splits)

lemma distinct_requestedStep:
  "distinct (map fst m) \<Longrightarrow> distinct (map fst (fold requestedStep rvs m))"
  by (rule fold_invariant [where P = "\<lambda>m. distinct (map fst m)"])
     (auto simp: requestedStep_def Let_def distinct_bump)

lemma reviewedSet_props:
  "distinct (reviewedSet rs)"
  "l \<in> set (reviewedSet rs) \<longleftrightarrow>
     (\<exists>r \<in> set rs. case userLogin r of None \<Rightarrow> False | Some x \<Rightarrow> x \<noteq> [] \<and> toLowerCase x = l)"
proof -
  let ?step = "\<lambda>r reviewed. (case userLogin r of None \<Rightarrow> reviewed
       | Some x \<Rightarrow> if x \<noteq> [] then setAdd (toLowerCase x) reviewed else reviewed)"
  have d: "distinct acc \<Longrightarrow> distinct (fold ?step rs acc)" for acc
    by (induction rs arbitrary: acc) (auto simp: distinct_setAdd split: option.splits)
  have s: "l \<in> set (fold ?step rs acc) \<longleftrightarrow> l \<in> set acc \<or>
     (\<exists>r \<in> set rs. case userLogin r of None \<Rightarrow> False | Some x \<Rightarrow> x \<noteq> [] \<and> toLowerCase x = l)"
    for acc
    by (induction rs arbitrary: acc) (auto simp: set_setAdd split: option.splits)
  show "distinct (reviewedSet rs)"
    unfolding reviewedSet_def by (rule d) simp
  show "l \<in> set (reviewedSet rs) \<longleftrightarrow>
     (\<exists>r \<in> set rs. case userLogin r of None \<Rightarrow> False | Some x \<Rightarrow> x \<noteq> [] \<and> toLowerCase x = l)"
    unfolding reviewedSet_def using s [of "[]"] by simp
qed

lemma getCount_reviewedPullStep:
  "getCount (reviewedPullStep since pr m) l =
     getCount m l + (if \<not> createdAt pr < since \<and> reviewedOn pr l then 1 else 0)"
  by (auto simp: reviewedPullStep_def reviewedOn_def getCount_fold_bump
        count_list_distinct reviewedSet_props split: option.splits)

lemma getCount_reviewedCounts:
  "getCount (fold (reviewedPullStep since) pulls m) l = getCount m l + reviewedCount since pulls l"
  unfolding reviewedCount_def
  by (induction pulls arbitrary: m) (auto simp: getCount_reviewedPullStep)

lemma set_flakyFold:
  "set (fold (flakyStep rc) rq acc) =
     set acc \<union> {fst e | e. e \<in> set rq \<and> 3 \<le> snd e \<and> getCount rc (fst e) < snd e}"
  by (induction rq arbitrary: acc) (auto simp: flakyStep_def Let_def set_setAdd)

lemma distinct_flakyFold: "distinct acc \<Longrightarrow> distinct (fold (flakyStep rc) rq acc)"
  by (rule fold_invariant [where P = distinct]) (auto simp: flakyStep_def Let_def distinct_setAdd)

lemma detectFlakyReviewers_iff:
  "l \<in> set (detectFlakyReviewers since pulls openPulls) \<longleftrightarrow>
     3 \<le> requestedCount openPulls l \<and> reviewedCount since pulls l < requestedCount openPulls l"
proof -
  define rc where "rc = fold (reviewedPullStep since) pulls []"
  define rq where "rq = fold requestedStep (concat (map requestedReviewers openPulls)) []"
  have g0: "getCount [] l = 0" by (simp add: getCount_def)
  have rcl: "getCount rc l = reviewedCount since pulls l"
    by (simp add: rc_def getCount_reviewedCounts g0)
  have rql: "getCount rq l = requestedCount openPulls l"
    by (simp add: rq_def getCount_requestedStep g0 requestedCount_def)
  have d: "distinct (map fst rq)"
    unfolding rq_def by (rule distinct_requestedStep) simp
  have det: "detectFlakyReviewers since pulls openPulls = fold (flakyStep rc) rq []"
    by (simp add: detectFlakyReviewers_def Let_def rc_def rq_def fold_fold_concat)
  have "l \<in> set (fold (flakyStep rc) rq []) \<longleftrightarrow>
          (\<exists>n. (l, n) \<in> set rq \<and> 3 \<le> n \<and> getCount rc l < n)"
    by (auto simp: set_flakyFold)
  also have "\<dots> \<longleftrightarrow> (\<exists>n. map_of rq l = Some n \<and> 3 \<le> n \<and> getCount rc l < n)"
    using d by (auto dest: map_of_SomeD)
  also have "\<dots> \<longleftrightarrow> 3 \<le> getCount rq l \<and> getCount rc l < getCount rq l"
    by (auto simp: getCount_def split: option.splits)
  finally show ?thesis by (simp add: det rcl rql)
qed

lemma baseRanking_state:
  "\<exists>st. baseRanking mm a files cfg api = rankedOf st
        \<and> addsFrom a (\<lambda>p r. 0 < p \<and> r \<noteq> ''flaky reviewer'') ([], []) st"
proof -
  have w: "0 < commitHistory (weightsOf cfg)" by (simp add: weightsOf_def)
  show ?thesis
    unfolding baseRanking_def Let_def rankCandidates_def
    by (rule exI, rule conjI, rule refl)
       (rule scoring_adds_positive [OF w crossRepoExpertiseOf_positive])
qed

lemma baseRanking_no_flaky_reason:
  assumes "r \<in> set (baseRanking mm a files cfg api)"
  shows "''flaky reviewer'' \<notin> set (reasons r)"
proof -
  obtain st where st: "baseRanking mm a files cfg api = rankedOf st"
    "addsFrom a (\<lambda>p r. 0 < p \<and> r \<noteq> ''flaky reviewer'') ([], []) st"
    using baseRanking_state by blast
  have "''flaky reviewer'' \<notin> set (getReasons (snd st) (login r))"
    by (rule addsFrom_reasons [OF st(2)]) (simp add: getReasons_def)
  then show ?thesis
    using assms rankedOf_member(2) [of r st] by (simp add: st(1))
qed

lemma distinct_baseRanking: "distinct (map login (baseRanking mm a files cfg api))"
proof -
  obtain st where st: "baseRanking mm a files cfg api = rankedOf st"
    "addsFrom a (\<lambda>p r. 0 < p \<and> r \<noteq> ''flaky reviewer'') ([], []) st"
    using baseRanking_state by blast
  have "distinct (map fst (fst st))"
    by (rule addsFrom_distinct [OF st(2)]) simp
  then show ?thesis by (simp add: st(1) distinct_rankedOf)
qed

lemma map_login_loadStep: "map login (map (loadStep c) rs) = map login rs"
  by (simp add: comp_def)

lemma map_login_flakyPenaltyStep: "map login (map (flakyPenaltyStep fl) rs) = map login rs"
  by (simp add: comp_def)

lemma distinct_afterLoad: "distinct (map login (afterLoad mm a files cfg api))"
proof -
  have "distinct (map login (afterExclusion mm a files cfg api))"
    unfolding afterExclusion_def excludeFilter_def
    by (rule distinct_map_filter) (rule distinct_baseRanking)
  then show ?thesis
    by (auto simp: afterLoad_def Let_def sortByScore_def distinct_map_sort_key
          map_login_loadStep simp del: map_map split: option.splits)
qed

lemma distinct_finalRanking: "distinct (map login (finalRanking mm a files cfg api))"
  using distinct_afterLoad [of mm a files cfg api]
  by (auto simp: finalRanking_def flakyBlock_def sortByScore_def distinct_map_sort_key
        map_login_flakyPenaltyStep simp del: map_map)

lemma afterLoad_no_flaky_reason:
  assumes "r \<in> set (afterLoad mm a files cfg api)"
  shows "''flaky reviewer'' \<notin> set (reasons r)"
proof -
  have "\<exists>r0 \<in> set (baseRanking mm a files cfg api). reasons r = reasons r0"
    using assms
    by (auto simp: afterLoad_def Let_def afterExclusion_def excludeFilter_def
          split: option.splits if_splits)
  then show ?thesis using baseRanking_no_flaky_reason by metis
qed

lemma jsRound_half: "jsRound (real_of_int s * 0.5) = (s + 1) div 2"
proof -
  have "real_of_int s * 0.5 + 1 / 2 = real_of_int (s + 1) / real_of_int 2"
    by simp
  then show ?thesis
    unfolding jsRound_def by (simp only: floor_divide_of_int_eq)
qed

lemma example_afterLoad:
  "afterLoad exampleMatcher (Some ''pat'') exampleFiles exampleConfig exampleApi =
     [\<lparr>login = ''carol'', score = 10, reasons = [''CODEOWNERS'', ''fast reviewer (~2h median)''],
        openReviews = Some 0\<rparr>,
      \<lparr>login = ''rita'', score = 10, reasons = [''required reviewer''], openReviews = Some 0\<rparr>,
      \<lparr>login = ''alice'', score = 7, reasons = [''recent commits'', ''timezone match''],
        openReviews = Some 1\<rparr>,
      \<lparr>login = ''dave'', score = 6, reasons = [''CODEOWNERS'', ''cross-repo expertise''],
        openReviews = Some 0\<rparr>]"
  by code_simp

lemma example_flaky: "flakyReviewersOf exampleConfig exampleApi = [''carol'']"
  by code_simp



section \<open>Required reviewers\<close>

lemma parseCommaSeparated_lower:
  "x \<in> set (parseCommaSeparated s) \<Longrightarrow> x \<noteq> [] \<and> toLowerCase x = x"
  by (auto simp: parseCommaSeparated_def toLowerCase_idem)

lemma example_parse: "parseCommaSeparated ''Rita, pat ,,'' = [''rita'', ''pat'']"
  by code_simp

lemma requiredStep_score:
  assumes "validLogin a l"
  shows "getScore (fst (requiredStep a l st)) l =
           (if getScore (fst st) l = 0 then 10 else getScore (fst st) l + 5)"
  using assms by (auto simp: requiredStep_def Let_def getScore_add validLogin_def)

lemma requiredStep_reason:
  assumes "validLogin a l"
  shows "''required reviewer'' \<in> set (getReasons (snd (requiredStep a l st)) l)"
  using assms by (auto simp: requiredStep_def Let_def getReasons_add validLogin_def)

lemma requiredStep_other:
  "k \<noteq> l \<Longrightarrow> getScore (fst (requiredStep a l st)) k = getScore (fst st) k"
  by (auto simp: requiredStep_def Let_def getScore_add)

lemma requiredFold_other:
  "k \<notin> set xs \<Longrightarrow> getScore (fst (fold (requiredStep a) xs st)) k = getScore (fst st) k"
  by (induction xs arbitrary: st) (auto simp: requiredStep_other)

lemma requiredFold_adds:
  "addsFrom a (\<lambda>p r. True) st (fold (requiredStep a) xs st)"
  by (intro addsFrom_fold requiredStep_adds) auto

lemma requiredFold_score:
  assumes "validLogin a l" "0 \<le> getScore (fst st) l"
  shows "getScore (fst (fold (requiredStep a) req st)) l =
           getScore (fst st) l + 5 * int (count_list req l)
           + (if getScore (fst st) l = 0 \<and> l \<in> set req then 5 else 0)"
  using assms(2)
proof (induction req arbitrary: st)
  case Nil
  then show ?case by simp
next
  case (Cons x xs)
  show ?case
  proof (cases "x = l")
    case True
    let ?st1 = "requiredStep a l st"
    have s1: "getScore (fst ?st1) l =
                (if getScore (fst st) l = 0 then 10 else getScore (fst st) l + 5)"
      by (rule requiredStep_score [OF assms(1)])
    then have pos: "0 < getScore (fst ?st1) l"
      using Cons.prems by (simp split: if_splits)
    have "getScore (fst (fold (requiredStep a) xs ?st1)) l =
            getScore (fst ?st1) l + 5 * int (count_list xs l)"
      using Cons.IH [of ?st1] pos by simp
    then show ?thesis
      using True s1 by simp
  next
    case False
    then have "getScore (fst (requiredStep a x st)) l = getScore (fst st) l"
      by (simp add: requiredStep_other)
    then show ?thesis
      using Cons.IH [of "requiredStep a x st"] Cons.prems False by simp
  qed
qed

lemma requiredBlock_score:
  assumes "validLogin a l" "0 \<le> getScore (fst st) l"
  shows "getScore (fst (requiredBlock a req st)) l =
           getScore (fst st) l + 5 * int (count_list req l)
           + (if getScore (fst st) l = 0 \<and> l \<in> set req then 5 else 0)"
  using requiredFold_score [OF assms, of req] by (auto simp: requiredBlock_def)

lemma getScore_nonneg:
  "\<forall>e \<in> set m. 0 < snd e \<Longrightarrow> 0 \<le> getScore m l"
  by (auto simp: getScore_def split: option.splits dest!: map_of_SomeD)

lemma getScore_member:
  "distinct (map fst m) \<Longrightarrow> (l, v) \<in> set m \<Longrightarrow> getScore m l = v"
  by (simp add: getScore_def)

lemma signalState_positive:
  assumes "0 < commitHistory w" "\<forall>e \<in> set cross. 0 < snd e"
  shows "\<forall>e \<in> set (fst (signalState mm fas a rs files lm w cross tz)). 0 < snd e"
proof -
  have c: "0 < max 1 (3 - int i) * commitHistory w" for i
    using assms(1) by (intro mult_pos_pos) auto
  have "addsFrom a (\<lambda>p r. 0 < p \<and> r \<noteq> ''flaky reviewer'') ([], [])
          (signalState mm fas a rs files lm w cross tz)"
    by (intro signalState_adds) (use assms c in auto)
  from addsFrom_positive [OF this] show ?thesis
    by simp
qed

lemma signalScore_nonneg: "0 \<le> signalScore mm a files cfg api l"
  unfolding signalScore_def
  by (intro getScore_nonneg signalState_positive crossRepoExpertiseOf_positive)
     (simp add: weightsOf_def)

lemma baseRanking_required_score:
  assumes "r \<in> set (baseRanking mm a files cfg api)"
  shows "score r =
           signalScore mm a files cfg api (login r)
           + 5 * int (count_list (requiredReviewers cfg) (login r))
           + (if signalScore mm a files cfg api (login r) = 0
                 \<and> login r \<in> set (requiredReviewers cfg) then 5 else 0)"
proof -
  define st0 where "st0 = signalState mm (fileAuthorsOf cfg api files) a (codeownersRulesOf cfg api)
        (filesToCheckOf cfg files) (latencyMapOf cfg api) (weightsOf cfg)
        (crossRepoExpertiseOf cfg api files)
        (timezoneDataOf cfg api (fileAuthorsOf cfg api files))"
  define st where "st = requiredBlock a (requiredReviewers cfg) st0"
  have b: "baseRanking mm a files cfg api = rankedOf st"
    by (simp add: baseRanking_def Let_def rankCandidates_def st_def st0_def)
  have s0: "signalScore mm a files cfg api l = getScore (fst st0) l" for l
    by (simp add: signalScore_def st0_def)
  have adds: "addsFrom a (\<lambda>p r. True) ([], []) st"
    unfolding st_def st0_def by (rule scoring_adds_any)
  have m: "(login r, score r) \<in> set (fst st)"
    using assms unfolding b by (rule rankedOf_member)
  have d: "distinct (map fst (fst st))"
    using addsFrom_distinct [OF adds] by simp
  have v: "validLogin a (login r)"
    using addsFrom_keys [OF adds] m by force
  have "score r = getScore (fst st) (login r)"
    using getScore_member [OF d m] by simp
  also have "\<dots> = getScore (fst st0) (login r)
               + 5 * int (count_list (requiredReviewers cfg) (login r))
               + (if getScore (fst st0) (login r) = 0
                     \<and> login r \<in> set (requiredReviewers cfg) then 5 else 0)"
    unfolding st_def
    by (rule requiredBlock_score [OF v]) (use signalScore_nonneg [of mm a files cfg api] s0 in simp)
  finally show ?thesis
    by (simp add: s0)
qed

lemma requiredBlock_member:
  assumes "validLogin a l" "l \<in> set req"
  shows "l \<in> fst ` set (fst (requiredBlock a req st))"
    and "''required reviewer'' \<in> set (getReasons (snd (requiredBlock a req st)) l)"
proof -
  obtain ys zs where s: "req = ys @ l # zs"
    using assms(2) by (auto dest: split_list)
  let ?st1 = "requiredStep a l (fold (requiredStep a) ys st)"
  have eq: "requiredBlock a req st = fold (requiredStep a) zs ?st1"
    by (simp add: requiredBlock_def s)
  have k: "l \<in> fst ` set (fst ?st1)"
    using assms(1) by (auto simp: requiredStep_def Let_def add_keys validLogin_def)
  show "l \<in> fst ` set (fst (requiredBlock a req st))"
    unfolding eq using addsFrom_keys_mono [OF requiredFold_adds [of a ?st1 zs]] k by blast
  show "''required reviewer'' \<in> set (getReasons (snd (requiredBlock a req st)) l)"
    unfolding eq
    using addsFrom_reasons_mono [OF requiredFold_adds [of a ?st1 zs], of l]
      requiredStep_reason [OF assms(1), of "fold (requiredStep a) ys st"] by blast
qed

lemma finalRanking_keeps:
  assumes "r \<in> set (afterExclusion mm a files cfg api)"
  shows "\<exists>r' \<in> set (finalRanking mm a files cfg api).
           login r' = login r \<and> set (reasons r) \<subseteq> set (reasons r')"
proof -
  have "\<exists>r1 \<in> set (afterLoad mm a files cfg api). login r1 = login r \<and> reasons r1 = reasons r"
  proof (cases "penalizeLoad cfg \<and> loadOpenPulls api \<noteq> None")
    case False
    then have "afterLoad mm a files cfg api = afterExclusion mm a files cfg api"
      by (auto simp: afterLoad_def Let_def)
    then show ?thesis using assms by auto
  next
    case True
    then obtain pulls where "loadOpenPulls api = Some pulls" by auto
    then have "loadStep (computeOpenReviewCounts pulls) r \<in> set (afterLoad mm a files cfg api)"
      using True assms by (simp add: afterLoad_def Let_def)
    then show ?thesis by (intro bexI [of _ "loadStep (computeOpenReviewCounts pulls) r"]) simp_all
  qed
  then obtain r1 where r1: "r1 \<in> set (afterLoad mm a files cfg api)" "login r1 = login r"
    "reasons r1 = reasons r" by blast
  have "flakyPenaltyStep fl r1 \<in> set (flakyBlock fl (afterLoad mm a files cfg api)) \<or>
        r1 \<in> set (flakyBlock fl (afterLoad mm a files cfg api))" for fl
    using r1(1) by (auto simp: flakyBlock_def)
  moreover have "set (reasons r1) \<subseteq> set (reasons (flakyPenaltyStep fl r1))" for fl
    by (auto simp: flakyPenaltyStep_def flakyPenalty_def)
  ultimately show ?thesis
    unfolding finalRanking_def using r1(2,3)
    by (metis login_flakyPenaltyStep subset_refl)
qed

lemma baseRanking_required:
  assumes "validLogin a l" "l \<in> set (requiredReviewers cfg)"
  shows "\<exists>r \<in> set (baseRanking mm a files cfg api).
           login r = l \<and> ''required reviewer'' \<in> set (reasons r)"
proof -
  define st where "st = requiredBlock a (requiredReviewers cfg)
     (signalState mm (fileAuthorsOf cfg api files) a (codeownersRulesOf cfg api)
        (filesToCheckOf cfg files) (latencyMapOf cfg api) (weightsOf cfg)
        (crossRepoExpertiseOf cfg api files)
        (timezoneDataOf cfg api (fileAuthorsOf cfg api files)))"
  have b: "baseRanking mm a files cfg api = rankedOf st"
    by (simp add: baseRanking_def Let_def rankCandidates_def st_def)
  have "l \<in> fst ` set (fst st)"
    unfolding st_def by (rule requiredBlock_member(1) [OF assms])
  then obtain e where e: "e \<in> set (fst st)" "fst e = l" by auto
  let ?r = "\<lparr>login = fst e, score = snd e, reasons = getReasons (snd st) (fst e),
             openReviews = None\<rparr>"
  have "?r \<in> set (rankedOf st)"
    unfolding set_rankedOf using e(1) by (rule imageI)
  moreover have "''required reviewer'' \<in> set (getReasons (snd st) l)"
    unfolding st_def by (rule requiredBlock_member(2) [OF assms])
  ultimately show ?thesis
    unfolding b using e(2) by (intro bexI [of _ ?r]) simp_all
qed




section \<open>Excluded reviewers\<close>

lemma set_fold_setAdd: "set (fold setAdd xs acc) = set xs \<union> set acc"
  by (induction xs arbitrary: acc) (auto simp: set_setAdd)

lemma set_fetchExcludedReviewers:
  "set (fetchExcludedReviewers inp ents) =
     toLowerCase ` set inp \<union> (toLowerCase ` set ents - {[]})"
proof -
  have "set (fold (\<lambda>u ex. (let trimmed = toLowerCase u
                            in if trimmed \<noteq> [] then setAdd trimmed ex else ex)) ents acc)
        = (toLowerCase ` set ents - {[]}) \<union> set acc" for acc
    by (induction ents arbitrary: acc) (auto simp: set_setAdd Let_def)
  then show ?thesis
    by (auto simp: fetchExcludedReviewers_def Let_def set_fold_setAdd)
qed

lemma excluded_lower:
  "e \<in> set (fetchExcludedReviewers inp ents) \<Longrightarrow> toLowerCase e = e"
  by (auto simp: set_fetchExcludedReviewers toLowerCase_idem)

lemma afterExclusion_clean:
  "r \<in> set (afterExclusion mm a files cfg api) \<Longrightarrow> toLowerCase (login r) \<notin> set (excludedOf cfg api)"
  by (simp add: afterExclusion_def excludeFilter_def)

lemma finalRanking_clean:
  assumes "r \<in> set (finalRanking mm a files cfg api)"
  shows "toLowerCase (login r) \<notin> set (excludedOf cfg api)"
proof -
  have "login r \<in> login ` set (finalRanking mm a files cfg api)"
    using assms by (rule imageI)
  then show ?thesis unfolding login_finalRanking by simp
qed

text \<open>
  C6, as amended. The exclusion set is the lower-cased input exclusions together with the
  lower-cased, non-empty entries of the repository's exclusion file. Every candidate
  whose lower-cased login is in it is removed right after the base scoring: the load
  and flaky penalties run on a list without excluded logins, no excluded login is in the
  final ranking or in the suggestions, and the confidence reads its top and second score
  from that final ranking. (The coverage of the confidence is computed from the commit
  authors and the ownership rules, excluded logins included.)
\<close>

theorem excluded_never_ranked:
  "set (excludedOf cfg api) =
     toLowerCase ` set (excludeReviewersInput cfg) \<union> (toLowerCase ` set (exclusionEntries api) - {[]})
   \<and> (\<forall>r \<in> set (afterExclusion mm prAuthor changedFiles cfg api).
         toLowerCase (login r) \<notin> set (excludedOf cfg api))
   \<and> (\<forall>r \<in> set (finalRanking mm prAuthor changedFiles cfg api).
         toLowerCase (login r) \<notin> set (excludedOf cfg api) \<and> login r \<notin> set (excludedOf cfg api))
   \<and> (\<forall>r \<in> set (suggestions (analyzeReviewers mm prAuthor changedFiles cfg api)).
         toLowerCase (login r) \<notin> set (excludedOf cfg api) \<and> login r \<notin> set (excludedOf cfg api))
   \<and> confidence (analyzeReviewers mm prAuthor changedFiles cfg api) =
       computeConfidence mm (finalRanking mm prAuthor changedFiles cfg api)
         (filesToCheckOf cfg changedFiles) (codeownersRulesOf cfg api)
         (fileAuthorsOf cfg api changedFiles)"
proof (intro conjI ballI)
  show "set (excludedOf cfg api) =
     toLowerCase ` set (excludeReviewersInput cfg) \<union> (toLowerCase ` set (exclusionEntries api) - {[]})"
    by (simp add: excludedOf_def set_fetchExcludedReviewers)
  show "toLowerCase (login r) \<notin> set (excludedOf cfg api)"
    if "r \<in> set (afterExclusion mm prAuthor changedFiles cfg api)" for r
    using that by (rule afterExclusion_clean)
  have fin: "toLowerCase (login r) \<notin> set (excludedOf cfg api) \<and> login r \<notin> set (excludedOf cfg api)"
    if "r \<in> set (finalRanking mm prAuthor changedFiles cfg api)" for r
  proof -
    have c: "toLowerCase (login r) \<notin> set (excludedOf cfg api)"
      using that by (rule finalRanking_clean)
    moreover have "login r \<notin> set (excludedOf cfg api)"
    proof
      assume "login r \<in> set (excludedOf cfg api)"
      then have "toLowerCase (login r) = login r"
        unfolding excludedOf_def by (rule excluded_lower)
      with c \<open>login r \<in> set (excludedOf cfg api)\<close> show False by simp
    qed
    ultimately show ?thesis by simp
  qed
  show "toLowerCase (login r) \<notin> set (excludedOf cfg api)" "login r \<notin> set (excludedOf cfg api)"
    if "r \<in> set (finalRanking mm prAuthor changedFiles cfg api)" for r
    using fin [OF that] by simp_all
  show "toLowerCase (login r) \<notin> set (excludedOf cfg api)" "login r \<notin> set (excludedOf cfg api)"
    if "r \<in> set (suggestions (analyzeReviewers mm prAuthor changedFiles cfg api))" for r
  proof -
    have "r \<in> set (finalRanking mm prAuthor changedFiles cfg api)"
      using that by (auto simp: analyzeReviewers_def Let_def dest: in_set_takeD)
    then show "toLowerCase (login r) \<notin> set (excludedOf cfg api)"
      "login r \<notin> set (excludedOf cfg api)"
      using fin by simp_all
  qed
  show "confidence (analyzeReviewers mm prAuthor changedFiles cfg api) =
       computeConfidence mm (finalRanking mm prAuthor changedFiles cfg api)
         (filesToCheckOf cfg changedFiles) (codeownersRulesOf cfg api)
         (fileAuthorsOf cfg api changedFiles)"
    by (simp add: analyzeReviewers_def Let_def)
qed

theorem excluded_never_ranked_witness:
  "excludedOf exampleConfig exampleApi = [''eve'', ''mallory'']
   \<and> map login (baseRanking exampleMatcher (Some ''pat'') exampleFiles exampleConfig exampleApi)
       = [''carol'', ''rita'', ''alice'', ''dave'', ''eve'']
   \<and> map login (finalRanking exampleMatcher (Some ''pat'') exampleFiles exampleConfig exampleApi)
       = [''rita'', ''alice'', ''dave'', ''carol'']
   \<and> list_all (\<lambda>r. toLowerCase (login r) \<notin> set (excludedOf exampleConfig exampleApi)
                   \<and> login r \<notin> set (excludedOf exampleConfig exampleApi))
        (finalRanking exampleMatcher (Some ''pat'') exampleFiles exampleConfig exampleApi)"
proof -
  have m: "map login (finalRanking exampleMatcher (Some ''pat'') exampleFiles exampleConfig exampleApi)
             = [''rita'', ''alice'', ''dave'', ''carol'']"
    by (simp add: example_finalRanking)
  from m example_excluded example_baseRanking_logins
    excluded_never_ranked [of exampleConfig exampleApi exampleMatcher "Some ''pat''" exampleFiles]
  show ?thesis unfolding list_all_iff by blast
qed

text \<open>
  The commits of an excluded login change the confidence: with \<open>eve\<close> excluded and
  \<open>rita\<close> required, one commit of \<open>eve\<close> on the changed file gives the coverage 1 and
  the confidence Medium; without that commit the coverage is 0 and the confidence Low.
\<close>

theorem excluded_affects_confidence_counterexample:
  "''eve'' \<in> set (excludedOf exclusionConfig (exclusionApi [exampleCommit ''eve'']))
   \<and> ''eve'' \<in> set (excludedOf exclusionConfig (exclusionApi []))
   \<and> confidence (analyzeReviewers exampleMatcher None [''a.js''] exclusionConfig
                    (exclusionApi [exampleCommit ''eve''])) = Medium
   \<and> confidence (analyzeReviewers exampleMatcher None [''a.js''] exclusionConfig
                    (exclusionApi [])) = Low"
  by code_simp

section \<open>Commit-history credit\<close>

lemma topCommitAuthorsForPath_eq:
  "topCommitAuthorsForPath resp =
     concat (map (\<lambda>c. case authorLogin c of
                         None \<Rightarrow> []
                       | Some l \<Rightarrow> if isBotLogin l then [] else [l]) resp)"
proof -
  let ?g = "\<lambda>c. case authorLogin c of None \<Rightarrow> [] | Some l \<Rightarrow> if isBotLogin l then [] else [l]"
  have "fold (\<lambda>c authors.
             (case authorLogin c of
                None \<Rightarrow> authors
              | Some l \<Rightarrow> if l \<noteq> [] \<and> \<not> isBotLogin l then authors @ [l] else authors))
          resp acc = acc @ concat (map ?g resp)" for acc
    by (induction resp arbitrary: acc) (auto simp: isBotLogin_Nil split: option.splits)
  then show ?thesis by (simp add: topCommitAuthorsForPath_def)
qed

lemma fold_add_score:
  "getScore (fst (fold (\<lambda>x st. add a (f x) (g x) r st) xs st)) l =
     getScore (fst st) l + (if validLogin a l then (\<Sum>x\<leftarrow>xs. if f x = l then g x else 0) else 0)"
  by (induction xs arbitrary: st) (auto simp: getScore_add)

lemma fold_add_reasons:
  "set (getReasons (snd (fold (\<lambda>x st. add a (f x) (g x) r st) xs st)) l) =
     set (getReasons (snd st) l) \<union>
     (if validLogin a l \<and> r \<noteq> [] \<and> l \<in> f ` set xs then {r} else {})"
  by (induction xs arbitrary: st) (auto simp: getReasons_add)

lemma max_positionWeight: "max 1 (3 - int i) = positionWeight i"
  by (auto simp: positionWeight_def)

lemma commitCreditLoop_score:
  "getScore (fst (commitCreditLoop a w as st)) l =
     getScore (fst st) l + (if validLogin a l then pathCredit w as l else 0)"
  unfolding commitCreditLoop_def Let_def pathCredit_def max_positionWeight
  by (rule fold_add_score)

lemma nth_image_take: "(!) as ` {0..<min (length as) n} = set (take n as)"
proof -
  have "map ((!) as) [0..<min (length as) n] = take n as"
    by (simp add: list_eq_iff_nth_eq)
  then have "set (map ((!) as) [0..<min (length as) n]) = set (take n as)"
    by simp
  then show ?thesis by simp
qed

lemma commitCreditLoop_reasons:
  "set (getReasons (snd (commitCreditLoop a w as st)) l) =
     set (getReasons (snd st) l) \<union>
     (if validLogin a l \<and> l \<in> set (take 10 as) then {''recent commits''} else {})"
  unfolding commitCreditLoop_def Let_def
  by (simp add: fold_add_reasons nth_image_take)

lemma commitBlock_score:
  "getScore (fst (commitBlock a w fas st)) l =
     getScore (fst st) l + (if validLogin a l then commitCredit w fas l else 0)"
  unfolding commitBlock_def commitCredit_def
  by (induction fas arbitrary: st) (auto simp: commitCreditLoop_score)

lemma commitBlock_reasons:
  "set (getReasons (snd (commitBlock a w fas st)) l) =
     set (getReasons (snd st) l) \<union>
     (if validLogin a l \<and> (\<exists>fa \<in> set fas. l \<in> set (take 10 (authors fa)))
      then {''recent commits''} else {})"
  unfolding commitBlock_def
  by (induction fas arbitrary: st) (auto simp: commitCreditLoop_reasons)

lemma fileAuthorsOf_entries:
  "\<forall>fa \<in> set (fileAuthorsOf cfg api files).
     \<exists>resp. pathCommits api (path fa) = Some resp \<and> authors fa = topCommitAuthorsForPath resp"
  unfolding fileAuthorsOf_def
  by (rule fold_invariant) (auto simp: fileAuthorsStep_def Let_def split: option.splits)

text \<open>
  C7, as amended. For every changed path the author list is the list of the non-bot
  author logins of the path's recent commits in the order of the response, one entry for
  each commit: a login is repeated as often as it has commits, nothing is deduplicated.
  The first entry weighs 3, the second 2 and each further entry up to the tenth 1, times
  the commit-history weight; the credit of all entries of a login, over all paths, is
  added to that login's score unless it is the author of the pull request or bot-like, and
  the login gets the reason "recent commits" exactly when it has such an entry.
\<close>

theorem commit_credit_per_commit:
  "topCommitAuthorsForPath resp =
     concat (map (\<lambda>c. case authorLogin c of
                         None \<Rightarrow> []
                       | Some x \<Rightarrow> if isBotLogin x then [] else [x]) resp)
   \<and> (\<forall>fa \<in> set (fileAuthorsOf cfg api changedFiles).
         \<exists>r. pathCommits api (path fa) = Some r \<and> authors fa = topCommitAuthorsForPath r)
   \<and> getScore (fst (commitBlock prAuthor w fas st)) l =
       getScore (fst st) l
       + (if Some l = prAuthor \<or> isBotLogin l then 0 else commitCredit w fas l)
   \<and> set (getReasons (snd (commitBlock prAuthor w fas st)) l) =
       set (getReasons (snd st) l) \<union>
       (if Some l \<noteq> prAuthor \<and> \<not> isBotLogin l \<and> (\<exists>fa \<in> set fas. l \<in> set (take 10 (authors fa)))
        then {''recent commits''} else {})"
  using fileAuthorsOf_entries [of cfg api changedFiles]
  by (auto simp: topCommitAuthorsForPath_eq commitBlock_score commitBlock_reasons validLogin_def)

lemma example_fileAuthors:
  "fileAuthorsOf exampleConfig exampleApi exampleFiles =
     [\<lparr>path = ''a.js'', authors = [''alice'', ''alice'', ''pat'', ''eve'', ''alice'']\<rparr>]"
  by code_simp

lemma example_commitCredit:
  "commitCredit (weightsOf exampleConfig)
     [\<lparr>path = ''a.js'', authors = [''alice'', ''alice'', ''pat'', ''eve'', ''alice'']\<rparr>] ''alice'' = 6"
  by code_simp

theorem commit_credit_per_commit_witness:
  "fileAuthorsOf exampleConfig exampleApi exampleFiles =
     [\<lparr>path = ''a.js'', authors = [''alice'', ''alice'', ''pat'', ''eve'', ''alice'']\<rparr>]
   \<and> (\<exists>r. pathCommits exampleApi ''a.js'' = Some r
           \<and> [''alice'', ''alice'', ''pat'', ''eve'', ''alice''] = topCommitAuthorsForPath r)
   \<and> getScore (fst (commitBlock (Some ''pat'') (weightsOf exampleConfig)
                      (fileAuthorsOf exampleConfig exampleApi exampleFiles) ([], []))) ''alice'' = 6
   \<and> getScore (fst (commitBlock (Some ''pat'') (weightsOf exampleConfig)
                      (fileAuthorsOf exampleConfig exampleApi exampleFiles) ([], []))) ''pat'' = 0"
proof -
  have b: "\<not> isBotLogin ''alice''" by code_simp
  have g: "getScore ([] :: (string \<times> int) list) k = 0" for k by (simp add: getScore_def)
  from b example_commitCredit
    commit_credit_per_commit [of "[]" exampleConfig exampleApi exampleFiles "Some ''pat''"
      "weightsOf exampleConfig" "fileAuthorsOf exampleConfig exampleApi exampleFiles" "([], [])" "''alice''"]
    commit_credit_per_commit [of "[]" exampleConfig exampleApi exampleFiles "Some ''pat''"
      "weightsOf exampleConfig" "fileAuthorsOf exampleConfig exampleApi exampleFiles" "([], [])" "''pat''"]
  show ?thesis by (simp add: example_fileAuthors g)
qed

text \<open>
  Three commits of \<open>alice\<close> on the one changed path give the author list
  \<open>alice, alice, alice\<close> and the score 3 + 2 + 1 = 6, where a deduplicated list would
  give her the weight 3 once.
\<close>

theorem commit_authors_not_deduplicated_counterexample:
  "fileAuthorsOf exclusionConfig
     (exclusionApi (map exampleCommit [''alice'', ''alice'', ''alice''])) [''a.js'']
     = [\<lparr>path = ''a.js'', authors = [''alice'', ''alice'', ''alice'']\<rparr>]
   \<and> \<not> distinct (topCommitAuthorsForPath (map exampleCommit [''alice'', ''alice'', ''alice'']))
   \<and> map (\<lambda>r. (login r, score r, reasons r))
        (baseRanking exampleMatcher None [''a.js''] exclusionConfig
           (exclusionApi (map exampleCommit [''alice'', ''alice'', ''alice''])))
     = [(''rita'', 10, [''required reviewer'']), (''alice'', 6, [''recent commits''])]"
  by code_simp

section \<open>Review latency\<close>

lemma median_standard:
  "median arr = (if arr = [] then None else Some (standardMedian arr))"
  by (auto simp: median_def standardMedian_def Let_def odd_iff_mod_2_eq_one)

lemma length_filter_ge_take:
  assumes "\<forall>x \<in> set (take k xs). P x" "k \<le> length xs"
  shows "k \<le> length (filter P xs)"
proof -
  have "filter P xs = filter P (take k xs) @ filter P (drop k xs)"
    by (metis append_take_drop_id filter_append)
  moreover have "filter P (take k xs) = take k xs"
    using assms(1) by (simp add: filter_id_conv)
  ultimately show ?thesis using assms(2) by simp
qed

lemma length_filter_ge_drop:
  assumes "\<forall>x \<in> set (drop k xs). P x"
  shows "length xs - k \<le> length (filter P xs)"
proof -
  have "filter P xs = filter P (take k xs) @ filter P (drop k xs)"
    by (metis append_take_drop_id filter_append)
  moreover have "filter P (drop k xs) = drop k xs"
    using assms(1) by (simp add: filter_id_conv)
  ultimately show ?thesis by simp
qed

lemma sorted_take_le:
  assumes "sorted (xs :: real list)" "j < length xs" "xs ! j \<le> m"
  shows "\<forall>x \<in> set (take (Suc j) xs). x \<le> m"
proof
  fix x assume "x \<in> set (take (Suc j) xs)"
  then obtain i where "i < Suc j" "i < length xs" "x = xs ! i"
    by (auto simp: in_set_conv_nth)
  then have "x \<le> xs ! j" using assms(1,2) by (auto intro: sorted_nth_mono)
  then show "x \<le> m" using assms(3) by simp
qed

lemma sorted_drop_ge:
  assumes "sorted (xs :: real list)" "j < length xs" "m \<le> xs ! j"
  shows "\<forall>x \<in> set (drop j xs). m \<le> x"
proof
  fix x assume "x \<in> set (drop j xs)"
  then obtain i where "i < length xs - j" "x = xs ! (j + i)"
    by (auto simp: in_set_conv_nth)
  then have "xs ! j \<le> x" using assms(1) by (auto intro: sorted_nth_mono)
  then show "m \<le> x" using assms(3) by simp
qed

lemma length_filter_sort:
  "length (filter P (sort xs)) = length (filter P xs)"
proof -
  have "length (filter P (sort_key (\<lambda>x. x) xs)) = length (filter P xs)"
    by (induction xs) (auto simp: filter_insort_triv filter_insort sorted_sort_id)
  then show ?thesis .
qed


lemma median_halves:
  assumes "arr \<noteq> []"
  shows "length arr \<le> 2 * length (filter (\<lambda>x. x \<le> standardMedian arr) arr)"
    and "length arr \<le> 2 * length (filter (\<lambda>x. standardMedian arr \<le> x) arr)"
proof -
  define s where "s = sort arr"
  define n where "n = length arr"
  define k where "k = n div 2"
  define m where "m = standardMedian arr"
  have srt: "sorted s" and len: "length s = n" and pos: "0 < n"
    using assms by (simp_all add: s_def n_def)
  have kn: "k < n" using pos by (simp add: k_def)
  have lo: "s ! (if odd n then k else k - 1) \<le> m" and hi: "m \<le> s ! k"
  proof -
    have "s ! (k - 1) \<le> s ! k"
      using srt kn len by (auto intro: sorted_nth_mono)
    then show "s ! (if odd n then k else k - 1) \<le> m" "m \<le> s ! k"
      by (auto simp: m_def standardMedian_def s_def n_def k_def)
  qed
  define j where "j = (if odd n then k else k - 1)"
  have jn: "j < n" using kn by (auto simp: j_def)
  have lo': "s ! j \<le> m" using lo by (simp add: j_def)
  have "\<forall>x \<in> set (take (Suc j) s). x \<le> m"
    by (rule sorted_take_le [OF srt _ lo']) (simp add: len jn)
  then have "Suc j \<le> length (filter (\<lambda>x. x \<le> m) s)"
    by (rule length_filter_ge_take) (use jn len in simp)
  moreover have "n \<le> 2 * Suc j"
    using pos by (auto simp: k_def j_def elim: oddE evenE)
  ultimately have "n \<le> 2 * length (filter (\<lambda>x. x \<le> m) s)"
    by (meson Suc_le_lessD le_trans mult_le_mono2 Suc_leD)
  then show "length arr \<le> 2 * length (filter (\<lambda>x. x \<le> standardMedian arr) arr)"
    by (simp add: s_def n_def m_def length_filter_sort)
  have "\<forall>x \<in> set (drop k s). m \<le> x"
    by (rule sorted_drop_ge [OF srt _ hi]) (simp add: len kn)
  then have "length s - k \<le> length (filter (\<lambda>x. m \<le> x) s)"
    by (rule length_filter_ge_drop)
  moreover have "n \<le> 2 * (n - k)"
    by (simp add: k_def)
  ultimately have "n \<le> 2 * length (filter (\<lambda>x. m \<le> x) s)"
    using len by (meson le_trans mult_le_mono2)
  then show "length arr \<le> 2 * length (filter (\<lambda>x. standardMedian arr \<le> x) arr)"
    by (simp add: s_def n_def m_def length_filter_sort)
qed

lemma latencyBonusHours_antimono:
  "h \<le> h' \<Longrightarrow> latencyBonusHours (Some h') \<le> latencyBonusHours (Some h)"
  by (auto simp: latencyBonusHours_def)


lemma firstReviewStep_bot:
  "isBotLogin l \<Longrightarrow> map_of (firstReviewStep r fb) l = map_of fb l"
  by (auto simp: firstReviewStep_def update_conv' split: option.splits)

lemma firstByUser_bot:
  "isBotLogin l \<Longrightarrow> map_of (fold firstReviewStep rs fb) l = map_of fb l"
  by (induction rs arbitrary: fb) (auto simp: firstReviewStep_bot)

lemma firstReviewStep_distinct:
  "distinct (map fst fb) \<Longrightarrow> distinct (map fst (firstReviewStep r fb))"
  by (auto simp: firstReviewStep_def distinct_update split: option.splits)

lemma firstByUser_distinct: "distinct (map fst (fold firstReviewStep rs []))"
  by (rule fold_invariant [where P = "\<lambda>m. distinct (map fst m)"])
     (simp_all add: firstReviewStep_distinct)

lemma Min_Cons: "ts \<noteq> [] \<Longrightarrow> Min (set (t # ts)) = min t (Min (set ts))"
  by (simp add: Min_insert)

lemma firstReviewStep_valid:
  assumes "\<not> isBotLogin l"
  shows "map_of (firstReviewStep r fb) l = earliestWith (map_of fb l) (reviewTimes [r] l)"
proof (cases "userLogin r = Some l")
  case False
  then show ?thesis
    by (auto simp: firstReviewStep_def reviewTimes_def earliestWith_def update_conv'
          split: option.splits)
next
  case True
  then show ?thesis using assms
    by (cases "submittedAt r"; cases "map_of fb l")
       (auto simp: firstReviewStep_def reviewTimes_def earliestWith_def update_conv'
          isBotLogin_Nil min_def)
qed

lemma Min_insert_Min:
  assumes "finite A" "A \<noteq> {}" "finite B"
  shows "Min (insert (Min A) B) = Min (A \<union> B)"
proof (cases "B = {}")
  case True
  then show ?thesis by simp
next
  case False
  then show ?thesis using assms by (simp add: Min.union)
qed

lemma earliestWith_append:
  "earliestWith (earliestWith e ts) us = earliestWith e (ts @ us)"
proof (cases e)
  case None
  show ?thesis
  proof (cases "ts = []")
    case True
    then show ?thesis by (simp add: None earliestWith_def)
  next
    case False
    then have "Min (insert (Min (set ts)) (set us)) = Min (set ts \<union> set us)"
      by (intro Min_insert_Min) simp_all
    then show ?thesis using False by (simp add: None earliestWith_def)
  qed
next
  case (Some x)
  have "Min (insert (Min (insert x (set ts))) (set us)) = Min (insert x (set ts) \<union> set us)"
    by (intro Min_insert_Min) simp_all
  then show ?thesis by (simp add: Some earliestWith_def)
qed

lemma reviewTimes_Cons: "reviewTimes (r # rs) l = reviewTimes [r] l @ reviewTimes rs l"
  by (simp add: reviewTimes_def)

lemma firstByUser_valid:
  assumes "\<not> isBotLogin l"
  shows "map_of (fold firstReviewStep rs fb) l = earliestWith (map_of fb l) (reviewTimes rs l)"
proof (induction rs arbitrary: fb)
  case Nil
  show ?case by (cases "map_of fb l") (simp_all add: earliestWith_def reviewTimes_def)
next
  case (Cons r rs)
  have "map_of (fold firstReviewStep (r # rs) fb) l =
          earliestWith (earliestWith (map_of fb l) (reviewTimes [r] l)) (reviewTimes rs l)"
    by (simp add: Cons.IH firstReviewStep_valid [OF assms])
  then show ?case
    by (simp add: earliestWith_append reviewTimes_Cons [of r rs])
qed


lemma appendHours_append: "appendHours (appendHours m xs) ys = appendHours m (xs @ ys)"
  by (auto simp: appendHours_def)

lemma accumulateStep_map_of:
  "map_of (accumulateStep c e per) l =
     (if fst e = l then appendHours (map_of per l)
                         (if snd e < c then [] else [real_of_int (snd e - c) / (1000 * 60 * 60)])
      else map_of per l)"
  by (auto simp: accumulateStep_def Let_def update_conv' appendHours_def divide_less_0_iff
        split: option.splits)

lemma accumulateStep_distinct:
  "distinct (map fst per) \<Longrightarrow> distinct (map fst (accumulateStep c e per))"
  by (auto simp: accumulateStep_def Let_def distinct_update split: option.splits)

lemma accumulateFold_map_of:
  assumes "distinct (map fst fbu)"
  shows "map_of (fold (accumulateStep c) fbu per) l =
     (case map_of fbu l of
        None \<Rightarrow> map_of per l
      | Some t \<Rightarrow> appendHours (map_of per l)
                   (if t < c then [] else [real_of_int (t - c) / (1000 * 60 * 60)]))"
  using assms
proof (induction fbu arbitrary: per)
  case Nil
  show ?case by simp
next
  case (Cons e fbu)
  have d: "distinct (map fst fbu)" and n: "fst e \<notin> fst ` set fbu"
    using Cons.prems by auto
  have ih: "map_of (fold (accumulateStep c) fbu (accumulateStep c e per)) l =
     (case map_of fbu l of
        None \<Rightarrow> map_of (accumulateStep c e per) l
      | Some t \<Rightarrow> appendHours (map_of (accumulateStep c e per) l)
                   (if t < c then [] else [real_of_int (t - c) / (1000 * 60 * 60)]))"
    by (rule Cons.IH [OF d])
  show ?case
  proof (cases "fst e = l")
    case True
    then have "map_of fbu l = None" using n by (simp add: map_of_eq_None_iff)
    then show ?thesis using True ih
      by (cases e) (simp add: accumulateStep_map_of)
  next
    case False
    then have eq: "map_of (accumulateStep c e per) l = map_of per l"
      by (simp add: accumulateStep_map_of)
    have "map_of (e # fbu) l = map_of fbu l"
      using False by (cases e) simp
    then show ?thesis using ih [unfolded eq] by simp
  qed
qed

lemma hours_nonneg_iff: "t < c \<longleftrightarrow> real_of_int (t - c) / (1000 * 60 * 60) < 0"
  by (simp add: divide_less_0_iff)

lemma latencyPullStep_map_of:
  "map_of (latencyPullStep since pr per) l = appendHours (map_of per l) (pullLatency since pr l)"
proof (cases "(mergedAt pr = None \<and> closedAt pr = None) \<or> createdAt pr < since")
  case True
  then show ?thesis
    by (auto simp: latencyPullStep_def pullLatency_def appendHours_def)
next
  case sampled: False
  show ?thesis
  proof (cases "reviewsResp pr")
    case None
    then show ?thesis using sampled
      by (auto simp: latencyPullStep_def pullLatency_def appendHours_def)
  next
    case (Some rs)
    have step: "latencyPullStep since pr per =
        fold (accumulateStep (createdAt pr)) (fold firstReviewStep rs []) per"
      using sampled Some by (auto simp: latencyPullStep_def)
    have m: "map_of (latencyPullStep since pr per) l =
       (case map_of (fold firstReviewStep rs []) l of
          None \<Rightarrow> map_of per l
        | Some t \<Rightarrow> appendHours (map_of per l)
             (if t < createdAt pr then []
              else [real_of_int (t - createdAt pr) / (1000 * 60 * 60)]))"
      unfolding step by (rule accumulateFold_map_of [OF firstByUser_distinct])
    show ?thesis
    proof (cases "isBotLogin l")
      case True
      then have "map_of (fold firstReviewStep rs []) l = None"
        by (simp add: firstByUser_bot)
      then show ?thesis using True m
        by (simp add: pullLatency_def appendHours_def)
    next
      case False
      then have "map_of (fold firstReviewStep rs []) l = earliestWith None (reviewTimes rs l)"
        using firstByUser_valid [of l rs "[]"] by simp
      then show ?thesis using False m sampled Some
        by (auto simp: pullLatency_def appendHours_def earliestWith_def Let_def)
    qed
  qed
qed

lemma latencyPullStep_distinct:
  "distinct (map fst per) \<Longrightarrow> distinct (map fst (latencyPullStep since pr per))"
  unfolding latencyPullStep_def
  by (auto split: option.splits
           intro!: fold_invariant [where P = "\<lambda>m. distinct (map fst m)"] accumulateStep_distinct)

lemma accumulate_map_of:
  "map_of (fold (latencyPullStep since) pulls per) l =
     appendHours (map_of per l) (concat (map (\<lambda>pr. pullLatency since pr l) pulls))"
proof (induction pulls arbitrary: per)
  case Nil
  show ?case by (simp add: appendHours_def)
next
  case (Cons pr pulls)
  show ?case
    by (simp add: Cons.IH latencyPullStep_map_of appendHours_append)
qed

lemma accumulateLatencies_map_of:
  "map_of (accumulateLatencies since pulls) l =
     (if sampledLatencies since pulls l = [] then None
      else Some (sampledLatencies since pulls l))"
  by (simp add: accumulateLatencies_def accumulate_map_of sampledLatencies_def appendHours_def)

lemma accumulateLatencies_distinct: "distinct (map fst (accumulateLatencies since pulls))"
  unfolding accumulateLatencies_def
  by (rule fold_invariant [where P = "\<lambda>m. distinct (map fst m)"])
     (simp_all add: latencyPullStep_distinct)

lemma medianFold_map_of:
  assumes "distinct (map fst per)"
  shows "map_of (fold medianStep per out) l =
     (case map_of per l of
        None \<Rightarrow> map_of out l
      | Some arr \<Rightarrow> (case median arr of None \<Rightarrow> map_of out l | Some m \<Rightarrow> Some m))"
  using assms
proof (induction per arbitrary: out)
  case Nil
  show ?case by simp
next
  case (Cons e per)
  have d: "distinct (map fst per)" and n: "fst e \<notin> fst ` set per"
    using Cons.prems by auto
  note ih = Cons.IH [OF d, of "medianStep e out"]
  show ?case
  proof (cases "fst e = l")
    case True
    then have "map_of per l = None" using n by (simp add: map_of_eq_None_iff)
    then show ?thesis using True ih
      by (cases e) (auto simp: medianStep_def update_conv' split: option.splits)
  next
    case False
    then show ?thesis using ih
      by (cases e) (auto simp: medianStep_def update_conv' split: option.splits)
  qed
qed

lemma computeReviewerLatencyHours_map_of:
  "map_of (computeReviewerLatencyHours since pulls) l = median (sampledLatencies since pulls l)"
  unfolding computeReviewerLatencyHours_def
  by (simp add: medianFold_map_of [OF accumulateLatencies_distinct] accumulateLatencies_map_of
        median_standard)

text \<open>
  C8. The latency record of a login is the median of its sampled first-review latencies:
  there is none when the login has no sampled latency (absence, not zero), and otherwise
  it is the standard median of the accumulated hours (for an even number of them the
  average of the two middle values), a value with at least half of the hours at or below
  it and at least half at or above it. The bonus of a median is 6, 4, 2, 1 or 0 points
  for at most 4, 12, 24, 48 or more hours, and 0 for a missing record.
\<close>

theorem latency_median_and_bonus:
  "map_of (computeReviewerLatencyHours since pulls) l = median (sampledLatencies since pulls l)
   \<and> (sampledLatencies since pulls l = [] \<longrightarrow>
        map_of (computeReviewerLatencyHours since pulls) l = None)
   \<and> (sampledLatencies since pulls l \<noteq> [] \<longrightarrow>
        map_of (computeReviewerLatencyHours since pulls) l =
          Some (standardMedian (sampledLatencies since pulls l)))
   \<and> median arr = (if arr = [] then None else Some (standardMedian arr))
   \<and> (arr \<noteq> [] \<longrightarrow>
        length arr \<le> 2 * length (filter (\<lambda>x. x \<le> standardMedian arr) arr)
        \<and> length arr \<le> 2 * length (filter (\<lambda>x. standardMedian arr \<le> x) arr))
   \<and> latencyBonusHours (Some h) =
       (if h \<le> 4 then 6 else if h \<le> 12 then 4 else if h \<le> 24 then 2
        else if h \<le> 48 then 1 else 0)
   \<and> latencyBonusHours None = 0"
proof (intro conjI impI)
  show "map_of (computeReviewerLatencyHours since pulls) l = median (sampledLatencies since pulls l)"
    by (rule computeReviewerLatencyHours_map_of)
  show "map_of (computeReviewerLatencyHours since pulls) l = None"
    if "sampledLatencies since pulls l = []"
    using that by (simp add: computeReviewerLatencyHours_map_of median_standard)
  show "map_of (computeReviewerLatencyHours since pulls) l =
          Some (standardMedian (sampledLatencies since pulls l))"
    if "sampledLatencies since pulls l \<noteq> []"
    using that by (simp add: computeReviewerLatencyHours_map_of median_standard)
  show "median arr = (if arr = [] then None else Some (standardMedian arr))"
    by (rule median_standard)
  show "length arr \<le> 2 * length (filter (\<lambda>x. x \<le> standardMedian arr) arr)" if "arr \<noteq> []"
    using that by (rule median_halves(1))
  show "length arr \<le> 2 * length (filter (\<lambda>x. standardMedian arr \<le> x) arr)" if "arr \<noteq> []"
    using that by (rule median_halves(2))
  show "latencyBonusHours (Some h) =
       (if h \<le> 4 then 6 else if h \<le> 12 then 4 else if h \<le> 24 then 2
        else if h \<le> 48 then 1 else 0)"
    by (simp add: latencyBonusHours_def)
  show "latencyBonusHours None = 0"
    by (simp add: latencyBonusHours_def)
qed

lemma example_latencies:
  "sampledLatencies 0 (the (latencyPulls exampleApi)) ''carol'' = [2]"
  "sampledLatencies 0 (the (latencyPulls exampleApi)) ''zed'' = []"
  "standardMedian [1, 5, 3, 10] = 4"
  "standardMedian [2] = 2"
  by code_simp+

theorem latency_median_and_bonus_witness:
  "sampledLatencies 0 (the (latencyPulls exampleApi)) ''carol'' = [2]
   \<and> map_of (computeReviewerLatencyHours 0 (the (latencyPulls exampleApi))) ''carol'' = Some 2
   \<and> latencyBonusHours (Some 2) = 6
   \<and> sampledLatencies 0 (the (latencyPulls exampleApi)) ''zed'' = []
   \<and> map_of (computeReviewerLatencyHours 0 (the (latencyPulls exampleApi))) ''zed'' = None
   \<and> [1, 5, 3, 10 :: real] \<noteq> []
   \<and> median [1, 5, 3, 10] = Some 4
   \<and> length [1, 5, 3, 10 :: real] \<le> 2 * length (filter (\<lambda>x. x \<le> 4) [1, 5, 3, 10 :: real])
   \<and> length [1, 5, 3, 10 :: real] \<le> 2 * length (filter (\<lambda>x. 4 \<le> x) [1, 5, 3, 10 :: real])"
proof -
  note T1 = latency_median_and_bonus [of 0 "the (latencyPulls exampleApi)" "''carol''"
      "[1, 5, 3, 10]" 2]
  note T2 = latency_median_and_bonus [of 0 "the (latencyPulls exampleApi)" "''zed''"
      "[1, 5, 3, 10]" 2]
  have a: "map_of (computeReviewerLatencyHours 0 (the (latencyPulls exampleApi))) ''carol'' = Some 2"
    using T1 [THEN conjunct2, THEN conjunct2, THEN conjunct1] by (simp add: example_latencies)
  have b: "map_of (computeReviewerLatencyHours 0 (the (latencyPulls exampleApi))) ''zed'' = None"
    using T2 [THEN conjunct2, THEN conjunct1] by (simp add: example_latencies)
  have c: "latencyBonusHours (Some 2) = 6"
    using T1 by simp
  have d: "median [1, 5, 3, 10] = Some 4"
    using T1 [THEN conjunct2, THEN conjunct2, THEN conjunct2, THEN conjunct1]
    by (simp add: example_latencies)
  have e: "length [1, 5, 3, 10 :: real] \<le> 2 * length (filter (\<lambda>x. x \<le> 4) [1, 5, 3, 10 :: real])"
    "length [1, 5, 3, 10 :: real] \<le> 2 * length (filter (\<lambda>x. 4 \<le> x) [1, 5, 3, 10 :: real])"
    by simp_all
  from a b c d e example_latencies(1,2) show ?thesis by simp
qed

section \<open>Confidence classification\<close>

lemma map_of_fold_update_False:
  "map_of (fold (\<lambda>f m. AList.update f False m) fs m) =
     (\<lambda>k. if k \<in> set fs then Some False else map_of m k)"
  by (induction fs arbitrary: m) (auto simp: update_conv' fun_eq_iff)

lemma distinct_fold_update_False:
  "distinct (map fst m) \<Longrightarrow> distinct (map fst (fold (\<lambda>f m. AList.update f False m) fs m))"
  by (induction fs arbitrary: m) (simp_all add: distinct_update)

lemma map_of_fold_update_True:
  "map_of (fold (\<lambda>f m. if P f then AList.update f True m else m) fs m) =
     (\<lambda>k. if k \<in> set fs \<and> P k then Some True else map_of m k)"
  by (induction fs arbitrary: m) (auto simp: update_conv' fun_eq_iff)

lemma distinct_fold_update_True:
  "distinct (map fst m) \<Longrightarrow>
     distinct (map fst (fold (\<lambda>f m. if P f then AList.update f True m else m) fs m))"
  by (induction fs arbitrary: m) (simp_all add: distinct_update)

lemma count_True_values:
  "distinct (map fst m) \<Longrightarrow>
     length (filter (\<lambda>b. b) (map snd m)) = card {k. map_of m k = Some True}"
proof (induction m)
  case Nil
  then show ?case by simp
next
  case (Cons kv m)
  obtain k v where kv: "kv = (k, v)"
    by (cases kv)
  from Cons.prems kv have k: "k \<notin> fst ` set m" and d: "distinct (map fst m)"
    by simp_all
  have none: "map_of m k = None"
    using k by (simp add: map_of_eq_None_iff)
  have fin: "finite {j. map_of m j = Some True}"
    by (rule finite_subset [of _ "dom (map_of m)"]) (auto simp: finite_dom_map_of)
  have "{j. map_of (kv # m) j = Some True} =
          (if v then insert k {j. map_of m j = Some True} else {j. map_of m j = Some True})"
    using none by (auto simp: kv)
  moreover have "k \<notin> {j. map_of m j = Some True}"
    using none by simp
  ultimately show ?case
    using Cons.IH [OF d] fin by (simp add: kv)
qed

lemma ownersForFile_no_rules: "ownersForFile mm [] f = []"
  by (simp add: ownersForFile_def)

lemma card_owned_files:
  "card {k. k \<in> set fs \<and> P k} = length (filter P (remdups fs))"
proof -
  have "distinct (filter P (remdups fs))"
    by simp
  from distinct_card [OF this] show ?thesis
    by simp
qed

lemma codeownersCovered_count:
  "length (filter (\<lambda>b. b) (map snd
      (if rs \<noteq> []
       then fold (\<lambda>f m. if ownersForFile mm rs f \<noteq> [] then AList.update f True m else m)
              fs (fold (\<lambda>f m. AList.update f False m) fs [])
       else fold (\<lambda>f m. AList.update f False m) fs []))) =
   length (filter (\<lambda>f. ownersForFile mm rs f \<noteq> []) (remdups fs))"
proof (cases "rs = []")
  case True
  have "length (filter (\<lambda>b. b) (map snd (fold (\<lambda>f m. AList.update f False m) fs []))) =
          card {k. map_of (fold (\<lambda>f m. AList.update f False m) fs []) k = Some True}"
    by (intro count_True_values distinct_fold_update_False) simp
  also have "\<dots> = 0"
    by (simp add: map_of_fold_update_False)
  finally show ?thesis
    using True by (simp add: ownersForFile_no_rules)
next
  case False
  let ?P = "\<lambda>f. ownersForFile mm rs f \<noteq> []"
  let ?m = "fold (\<lambda>f m. if ?P f then AList.update f True m else m)
              fs (fold (\<lambda>f m. AList.update f False m) fs [])"
  have "length (filter (\<lambda>b. b) (map snd ?m)) = card {k. map_of ?m k = Some True}"
    by (intro count_True_values distinct_fold_update_True distinct_fold_update_False) simp
  also have "{k. map_of ?m k = Some True} = {k. k \<in> set fs \<and> ?P k}"
    by (auto simp: map_of_fold_update_True map_of_fold_update_False split: if_splits)
  also have "card \<dots> = length (filter ?P (remdups fs))"
    by (rule card_owned_files)
  finally show ?thesis
    using False by simp
qed

lemma coverageRatio_eq:
  "coverageRatio mm changedFiles rs fa =
     (if changedFiles = [] then 0
      else real (max (if fa = [] then 0
                      else min (length changedFiles) (max 1 (length fa)))
                     (length (filter (\<lambda>f. ownersForFile mm rs f \<noteq> []) (remdups changedFiles))))
           / real (length changedFiles))"
  unfolding coverageRatio_def Let_def codeownersCovered_count
  by simp

text \<open>
  C9. Let \<open>top\<close> be the score of the first candidate of the ranking and \<open>second\<close> the
  score of the second one, each 0 when there is no such candidate. The confidence is
  High exactly when \<open>top\<close> is at least 12, the coverage at least 0.5 and the separation at
  least 0.25; otherwise Medium exactly when \<open>top\<close> is at least 6 and the coverage at least
  0.25; otherwise Low. The separation is \<open>(top - second) / top\<close>, and 0 when \<open>top\<close> is 0.
  The coverage is the number of covered files divided by the number of changed files (0
  when no file changed), where the number of covered files is the larger of the attribution
  estimate (0 without attribution results, else the number of attribution results, at
  least 1 and at most the number of changed files) and the number of distinct changed
  files with at least one owner. In particular the confidence is Low whenever the top
  score is 0.
\<close>

theorem computeConfidence_classification:
  "computeConfidence mm [] changedFiles rs fa =
     (if (0::int) \<ge> 12 \<and> coverageRatio mm changedFiles rs fa \<ge> 1 / 2
         \<and> specSeparation 0 0 \<ge> 1 / 4 then High
      else if (0::int) \<ge> 6 \<and> coverageRatio mm changedFiles rs fa \<ge> 1 / 4 then Medium
      else Low)
   \<and> computeConfidence mm [r] changedFiles rs fa =
     (if score r \<ge> 12 \<and> coverageRatio mm changedFiles rs fa \<ge> 1 / 2
         \<and> specSeparation (score r) 0 \<ge> 1 / 4 then High
      else if score r \<ge> 6 \<and> coverageRatio mm changedFiles rs fa \<ge> 1 / 4 then Medium
      else Low)
   \<and> computeConfidence mm (r1 # r2 # rest) changedFiles rs fa =
     (if score r1 \<ge> 12 \<and> coverageRatio mm changedFiles rs fa \<ge> 1 / 2
         \<and> specSeparation (score r1) (score r2) \<ge> 1 / 4 then High
      else if score r1 \<ge> 6 \<and> coverageRatio mm changedFiles rs fa \<ge> 1 / 4 then Medium
      else Low)
   \<and> coverageRatio mm changedFiles rs fa =
     (if changedFiles = [] then 0
      else real (max (if fa = [] then 0
                      else min (length changedFiles) (max 1 (length fa)))
                     (length (filter (\<lambda>f. ownersForFile mm rs f \<noteq> []) (remdups changedFiles))))
           / real (length changedFiles))
   \<and> computeConfidence mm [] changedFiles rs fa = Low
   \<and> (score r1 = 0 \<longrightarrow> computeConfidence mm (r1 # rest) changedFiles rs fa = Low)"
proof (intro conjI impI)
  show "coverageRatio mm changedFiles rs fa =
     (if changedFiles = [] then 0
      else real (max (if fa = [] then 0
                      else min (length changedFiles) (max 1 (length fa)))
                     (length (filter (\<lambda>f. ownersForFile mm rs f \<noteq> []) (remdups changedFiles))))
           / real (length changedFiles))"
    by (rule coverageRatio_eq)
qed (simp_all add: computeConfidence_def topScore_def secondScore_def specSeparation_def Let_def)

theorem computeConfidence_classification_witness:
  "score \<lparr>login = ''zed'', score = 0, reasons = [], openReviews = None\<rparr> = 0
   \<and> computeConfidence exampleMatcher
        [\<lparr>login = ''zed'', score = 0, reasons = [], openReviews = None\<rparr>]
        [''a.js'', ''b.js''] exampleRules [] = Low
   \<and> coverageRatio exampleMatcher [''a.js'', ''b.js'', ''c.js'', ''c.js''] exampleRules [] = 1 / 2
   \<and> computeConfidence exampleMatcher
        [\<lparr>login = ''dave'', score = 14, reasons = [''CODEOWNERS''], openReviews = None\<rparr>,
         \<lparr>login = ''carol'', score = 9, reasons = [''CODEOWNERS''], openReviews = None\<rparr>]
        [''a.js'', ''b.js'', ''c.js'', ''c.js''] exampleRules [] = High
   \<and> computeConfidence exampleMatcher
        [\<lparr>login = ''dave'', score = 14, reasons = [''CODEOWNERS''], openReviews = None\<rparr>,
         \<lparr>login = ''carol'', score = 11, reasons = [''CODEOWNERS''], openReviews = None\<rparr>]
        [''a.js'', ''b.js'', ''c.js'', ''c.js''] exampleRules [] = Medium
   \<and> computeConfidence exampleMatcher
        [\<lparr>login = ''dave'', score = 11, reasons = [''CODEOWNERS''], openReviews = None\<rparr>,
         \<lparr>login = ''carol'', score = 1, reasons = [''CODEOWNERS''], openReviews = None\<rparr>]
        [''a.js'', ''b.js'', ''c.js'', ''c.js''] exampleRules [] = Medium
   \<and> computeConfidence exampleMatcher
        [\<lparr>login = ''dave'', score = 12, reasons = [''CODEOWNERS''], openReviews = None\<rparr>]
        [''a.js'', ''b.js'', ''c.js'', ''c.js''] exampleRules [] = High
   \<and> computeConfidence exampleMatcher
        [\<lparr>login = ''dave'', score = 5, reasons = [''CODEOWNERS''], openReviews = None\<rparr>,
         \<lparr>login = ''carol'', score = 1, reasons = [''CODEOWNERS''], openReviews = None\<rparr>]
        [''a.js'', ''b.js'', ''c.js'', ''c.js''] exampleRules [] = Low
   \<and> computeConfidence exampleMatcher [] [''a.js'', ''b.js''] exampleRules [] = Low"
proof -
  let ?zed = "\<lparr>login = ''zed'', score = 0, reasons = [], openReviews = None\<rparr>"
  let ?files = "[''a.js'', ''b.js'', ''c.js'', ''c.js'']"
  let ?dave = "\<lambda>s. \<lparr>login = ''dave'', score = s, reasons = [''CODEOWNERS''], openReviews = None\<rparr>"
  let ?carol = "\<lambda>s. \<lparr>login = ''carol'', score = s, reasons = [''CODEOWNERS''], openReviews = None\<rparr>"
  have own: "ownersForFile exampleMatcher exampleRules ''a.js'' \<noteq> []"
    "ownersForFile exampleMatcher exampleRules ''b.js'' \<noteq> []"
    "ownersForFile exampleMatcher exampleRules ''c.js'' = []"
    by code_simp+
  note T = computeConfidence_classification [of exampleMatcher ?files exampleRules "[]"]
  have cov: "coverageRatio exampleMatcher ?files exampleRules [] = 1 / 2"
    using T [of ?zed ?zed ?zed "[]", THEN conjunct2, THEN conjunct2, THEN conjunct2, THEN conjunct1]
    by (simp add: own)
  have z: "computeConfidence exampleMatcher [?zed] [''a.js'', ''b.js''] exampleRules [] = Low"
    using computeConfidence_classification [of exampleMatcher "[''a.js'', ''b.js'']" exampleRules
      "[]" ?zed ?zed ?zed "[]"] by simp
  have e: "computeConfidence exampleMatcher [] [''a.js'', ''b.js''] exampleRules [] = Low"
    using computeConfidence_classification [of exampleMatcher "[''a.js'', ''b.js'']" exampleRules
      "[]" ?zed ?zed ?zed "[]"] by simp
  have h1: "computeConfidence exampleMatcher [?dave 14, ?carol 9] ?files exampleRules [] = High"
    using T [of ?zed "?dave 14" "?carol 9" "[]"] by (simp add: cov specSeparation_def)
  have m1: "computeConfidence exampleMatcher [?dave 14, ?carol 11] ?files exampleRules [] = Medium"
    using T [of ?zed "?dave 14" "?carol 11" "[]"] by (simp add: cov specSeparation_def)
  have m2: "computeConfidence exampleMatcher [?dave 11, ?carol 1] ?files exampleRules [] = Medium"
    using T [of ?zed "?dave 11" "?carol 1" "[]"] by (simp add: cov specSeparation_def)
  have h2: "computeConfidence exampleMatcher [?dave 12] ?files exampleRules [] = High"
    using T [of "?dave 12" ?zed ?zed "[]"] by (simp add: cov specSeparation_def)
  have l1: "computeConfidence exampleMatcher [?dave 5, ?carol 1] ?files exampleRules [] = Low"
    using T [of ?zed "?dave 5" "?carol 1" "[]"] by (simp add: cov specSeparation_def)
  from z cov h1 m1 m2 h2 l1 e show ?thesis
    by simp
qed

section \<open>Scores before the penalties\<close>

text \<open>
  C10. Every candidate of the ranking that \<open>rankCandidates\<close> returns, before the
  exclusion filter and the load and flaky penalties, has a strictly positive integer
  score: for any weights with a positive commit-history weight and any cross-repository
  counts that are positive, and so in every run of \<open>analyzeReviewers\<close>, where the
  commit-history weight is 1 and the counts are at least 1.
\<close>

theorem baseRanking_scores_positive:
  "(0 < commitHistory w \<and> (\<forall>e \<in> set cross. 0 < snd e) \<longrightarrow>
      (\<forall>r \<in> set (rankCandidates mm fas a rs files lm w cross tz req). 0 < score r))
   \<and> (\<forall>r \<in> set (baseRanking mm a changedFiles cfg api). 0 < score r)"
proof (intro conjI impI)
  show "\<forall>r \<in> set (rankCandidates mm fas a rs files lm w cross tz req). 0 < score r"
    if "0 < commitHistory w \<and> (\<forall>e \<in> set cross. 0 < snd e)"
    using that by (intro rankCandidates_positive) auto
  show "\<forall>r \<in> set (baseRanking mm a changedFiles cfg api). 0 < score r"
    unfolding baseRanking_def Let_def
    by (intro rankCandidates_positive crossRepoExpertiseOf_positive) (simp add: weightsOf_def)
qed

theorem baseRanking_scores_positive_witness:
  "0 < commitHistory (weightsOf exampleConfig)
   \<and> list_all (\<lambda>e. 0 < snd e) [(''dave'', 2 :: nat)]
   \<and> list_all (\<lambda>r. 0 < score r)
        (rankCandidates exampleMatcher [] (Some ''pat'') [] [] [] (weightsOf exampleConfig)
           [(''dave'', 2)] None [''rita''])
   \<and> map score (baseRanking exampleMatcher (Some ''pat'') exampleFiles exampleConfig exampleApi)
       = [10, 10, 9, 6, 1]
   \<and> list_all (\<lambda>r. 0 < score r)
        (baseRanking exampleMatcher (Some ''pat'') exampleFiles exampleConfig exampleApi)"
proof -
  have w: "0 < commitHistory (weightsOf exampleConfig)"
    by (simp add: weightsOf_def)
  have c: "\<forall>e \<in> set [(''dave'', 2 :: nat)]. 0 < snd e"
    by simp
  have m: "map score (baseRanking exampleMatcher (Some ''pat'') exampleFiles exampleConfig exampleApi)
             = [10, 10, 9, 6, 1]"
    using arg_cong [OF example_baseRanking, of "map snd"] by (simp add: comp_def)
  from w c m
    baseRanking_scores_positive [of "weightsOf exampleConfig" "[(''dave'', 2)]" exampleMatcher "[]"
      "Some ''pat''" "[]" "[]" "[]" None "[''rita'']" exampleFiles exampleConfig exampleApi]
  show ?thesis unfolding list_all_iff by blast
qed

end
